theory Spec2Isabelle
  imports Complex_Main "HOL-Library.Char_ord" "HOL-Library.List_Lexorder"
begin

section \<open>BatSAT: the data model of \<^verbatim>\<open>src/index.ts\<close>\<close>

text \<open>
  The embedding follows \<^verbatim>\<open>src/index.ts\<close> (class \<^verbatim>\<open>Problem\<close>), \<^verbatim>\<open>attrs-and-props.ts\<close>
  (\<^verbatim>\<open>lookupAttributeInMap\<close>) and \<^verbatim>\<open>Solution.ts\<close> (class \<^verbatim>\<open>Solution\<close>).

  Conventions of the model:
  \<^item> an \<^verbatim>\<open>InternalAttribute\<close> (an index into \<^verbatim>\<open>fromInternal\<close>) is a \<open>nat\<close>. An
    \<^verbatim>\<open>InternalProposition\<close> is the product of a sign and of what a lookup returned:
    an integer, or \<^verbatim>\<open>NaN\<close> when the lookup returned something that is no number (type
    \<open>number\<close>);
  \<^item> a JavaScript \<^verbatim>\<open>number\<close> argument (\<^verbatim>\<open>min\<close>, \<^verbatim>\<open>max\<close>, \<^verbatim>\<open>n\<close>) and a value of
    \<^verbatim>\<open>Math.random()\<close> is a \<open>rat\<close>: every finite double is a rational, and comparison,
    \<^verbatim>\<open>Math.ceil\<close>, \<^verbatim>\<open>Math.floor\<close> are exact on doubles. For these arguments \<^verbatim>\<open>NaN\<close> and
    the infinities are not represented, and the products and sums of the search loop
    (\<^verbatim>\<open>Math.random() * n\<close>, the noise update) are taken exactly, without the rounding of
    IEEE arithmetic;
  \<^item> a JavaScript object used as a dictionary is the map of its own properties
    together with what its prototype chain provides: a read \<^verbatim>\<open>m[k]\<close> that finds no own
    property \<open>k\<close> goes on to \<^verbatim>\<open>Object.prototype\<close> (see \<open>Prototype\<close> below);
  \<^item> a \<^verbatim>\<open>throw\<close> is a value of type \<open>error\<close>; an operation returns the state it leaves
    behind together with the error, if any, since some operations mutate the problem
    before they throw;
  \<^item> the calls of \<^verbatim>\<open>Math.random()\<close> read a sequence \<open>rnd :: nat \<Rightarrow> rat\<close> at a position
    that every call advances.
\<close>

type_synonym Attribute = string
type_synonym Proposition = string
type_synonym InternalAttribute = nat

datatype number = Num int | NaN

type_synonym InternalProposition = number
type_synonym Assignment = "bool list"
type_synonym Clause = "InternalProposition list"

record Constraint =
  lo :: int
  hi :: int
  clause :: Clause

text \<open>
  One entry of an \<^verbatim>\<open>AttributeMap\<close>: the four-element array
  \<^verbatim>\<open>[undefined | T, undefined | {..}, undefined | {..{..}}, undefined | {..{..{..}}}]\<close>.
  The fields hold the own properties of the nested objects.
\<close>

record slot =
  arity0 :: "InternalAttribute option"
  arity1 :: "(string \<rightharpoonup> InternalAttribute) option"
  arity2 :: "(string \<rightharpoonup> (string \<rightharpoonup> InternalAttribute)) option"
  arity3 :: "(string \<rightharpoonup> (string \<rightharpoonup> (string \<rightharpoonup> InternalAttribute))) option"

subsection \<open>Plain objects and their prototype chain\<close>

text \<open>
  \<^verbatim>\<open>toInternal\<close> and the nested maps of a slot are object literals \<^verbatim>\<open>{}\<close>. A read
  \<^verbatim>\<open>m[k]\<close> of such an object gives the own property \<open>k\<close> when there is one, and otherwise
  what the prototype of the object, \<^verbatim>\<open>Object.prototype\<close>, has under \<open>k\<close> (for instance the
  function \<^verbatim>\<open>Object\<close> under \<^verbatim>\<open>constructor\<close>); a further read \<^verbatim>\<open>m[k][k']\<close> is then a read of
  a property of that value. What the chain holds belongs to the JavaScript realm the
  program runs in and not to this repository, so it is a parameter of the model: a
  function from the names read one after the other, starting at an object without an own
  property of the first name, to what the last read finds.

  \<open>T\<close> is what \<^verbatim>\<open>lookupAttributeInMap<T>\<close> returns at run time. It is declared a number; it
  is whatever the last read finds, provided that is truthy:
  \<^item> \<open>Number n\<close>, the number \<open>n\<close> (an id of the registry, or a number found on the chain,
    such as the \<^verbatim>\<open>length\<close> of a function);
  \<^item> \<open>NotNumber\<close>, any other truthy value (a function, an object, a non-empty string that
    is no numeral). Multiplied by a sign it gives \<^verbatim>\<open>NaN\<close>; compared with a number it gives
    \<^verbatim>\<open>false\<close>.

  A read along the chain finds \<open>Nothing\<close> (\<^verbatim>\<open>undefined\<close>, or another falsy value that is no
  number), a \<open>Value\<close> (the number \<open>0\<close> is falsy), or it \<open>Raises\<close> a \<^verbatim>\<open>TypeError\<close> (an
  accessor property that throws).
\<close>

datatype T = Number nat | NotNumber

datatype inherited = Nothing | Value T | Raises

type_synonym Prototype = "string list \<Rightarrow> inherited"

definition falsy :: "inherited \<Rightarrow> bool" where
  "falsy v = (v = Nothing \<or> v = Value (Number 0))"

text \<open>
  \<^verbatim>\<open>toInternal\<close>: its own properties and its prototype. The object literals that
  \<^verbatim>\<open>attribute\<close> creates for the nested maps have the same prototype.
\<close>

record AttributeMap =
  own :: "string \<rightharpoonup> slot"
  prototype :: Prototype

datatype error =
    MalformedPredicate
  | MalformedArgument
  | NoPredicateDeclared
  | WrongArity
  | InvalidArgument nat
  | InternalArity
  | TypeError
  | Unsatisfiable
  | TriviallySatisfied
  | Vacuous
  | NegatedConclusion
  | UnsupportedArity
  | MalformedName
  | MalformedElement
  | PreviouslyDeclared
  | Timeout
  | DefinedAfter

text \<open>
  \<^verbatim>\<open>rules\<close> is an object literal whose keys are the values of \<^verbatim>\<open>conc\<close> in \<^verbatim>\<open>rule\<close>:
  integers, or \<^verbatim>\<open>NaN\<close>. \<^verbatim>\<open>Object.entries\<close> lists the integer keys in ascending order and
  the key \<^verbatim>\<open>'NaN'\<close> after them. The model keeps the entries as an association list in that
  order (see \<open>rules_push\<close>).
\<close>

record Problem =
  fromInternal :: "Attribute list"
  toInternal :: AttributeMap
  constraints :: "Constraint list"
  rules :: "(number \<times> InternalProposition list) list"
  nonRuleConstraints :: "nat option"

text \<open>\<^verbatim>\<open>new Problem()\<close>, in a realm whose \<^verbatim>\<open>Object.prototype\<close> is \<open>proto\<close>.\<close>

definition new_Problem :: "Prototype \<Rightarrow> Problem" where
  "new_Problem proto =
     \<lparr> fromInternal = [''''], toInternal = \<lparr> own = Map.empty, prototype = proto \<rparr>,
       constraints = [], rules = [], nonRuleConstraints = None \<rparr>"

subsection \<open>\<^verbatim>\<open>attrs-and-props.ts\<close>: identifiers and \<^verbatim>\<open>lookupAttributeInMap\<close>\<close>

definition is_lower :: "char \<Rightarrow> bool" where
  "is_lower c = (97 \<le> (of_char c :: nat) \<and> (of_char c :: nat) \<le> 122)"

definition is_word :: "char \<Rightarrow> bool" where
  "is_word c = (let n = (of_char c :: nat) in
     (97 \<le> n \<and> n \<le> 122) \<or> (65 \<le> n \<and> n \<le> 90) \<or> (48 \<le> n \<and> n \<le> 57) \<or> n = 95)"

text \<open>\<^verbatim>\<open>IDENT_REGEX = /^[a-z][A-Za-z0-9_]*$/\<close>\<close>

fun IDENT_REGEX :: "string \<Rightarrow> bool" where
  "IDENT_REGEX [] = False"
| "IDENT_REGEX (c # cs) = (is_lower c \<and> list_all is_word cs)"

text \<open>\<^verbatim>\<open>s.split(' ')\<close>: never empty; the empty string gives \<^verbatim>\<open>['']\<close>.\<close>

fun split_space :: "string \<Rightarrow> string list" where
  "split_space [] = ['''']"
| "split_space (c # cs) =
     (if c = CHR '' '' then [] # split_space cs
      else (case split_space cs of
              [] \<Rightarrow> [c # '''']
            | w # ws \<Rightarrow> (c # w) # ws))"

definition slot_undefined :: "slot \<Rightarrow> bool" where
  "slot_undefined s = (arity0 s = None \<and> arity1 s = None \<and> arity2 s = None \<and> arity3 s = None)"

text \<open>
  An own property that holds an id, in the test
  \<^verbatim>\<open>if (!m[k]) throw invalidArgumentError(position, k); return m[k]\<close>: the id \<open>0\<close> is falsy.
\<close>

definition own_id :: "nat \<Rightarrow> InternalAttribute \<Rightarrow> error + T" where
  "own_id position i = (if i = 0 then Inl (InvalidArgument position) else Inr (Number i))"

text \<open>
  The same tests from the first argument on that names no own property: \<open>names\<close> are the
  names read so far along the chain, the last of them the argument at \<open>position\<close>, and
  the last argument of \<open>read_inherited\<close> lists the arguments still to read. Each test
  \<^verbatim>\<open>if (!m[x]..[z]) throw invalidArgumentError(position, z)\<close> passes when the value read is
  truthy, and the value of the last read is returned.
\<close>

fun read_inherited :: "Prototype \<Rightarrow> nat \<Rightarrow> string list \<Rightarrow> string list \<Rightarrow> error + T" where
  "read_inherited proto position names [] =
     (case proto names of
        Raises \<Rightarrow> Inl TypeError
      | Nothing \<Rightarrow> Inl (InvalidArgument position)
      | Value v \<Rightarrow> if v = Number 0 then Inl (InvalidArgument position) else Inr v)"
| "read_inherited proto position names (k # ks) =
     (case proto names of
        Raises \<Rightarrow> Inl TypeError
      | Nothing \<Rightarrow> Inl (InvalidArgument position)
      | Value v \<Rightarrow>
          if v = Number 0 then Inl (InvalidArgument position)
          else read_inherited proto (position + 1) (names @ [k]) ks)"

text \<open>
  When \<^verbatim>\<open>map[predicate]\<close> is no own property and the chain has a truthy value under the
  name, \<^verbatim>\<open>attributeMap.every\<close> is called on that value and throws a \<^verbatim>\<open>TypeError\<close> (the value
  is no array).
\<close>

definition lookupAttributeInMap :: "Attribute \<Rightarrow> AttributeMap \<Rightarrow> error + T" where
  "lookupAttributeInMap attribute m =
     (let parts = split_space attribute; predicate = hd parts; args = tl parts;
          proto = prototype m in
      if \<not> IDENT_REGEX predicate then Inl MalformedPredicate
      else if \<not> list_all IDENT_REGEX args then Inl MalformedArgument
      else (case own m predicate of
              None \<Rightarrow>
                if falsy (proto [predicate]) then Inl NoPredicateDeclared else Inl TypeError
            | Some attributeMap \<Rightarrow>
                if slot_undefined attributeMap then Inl NoPredicateDeclared
                else (case args of
                   [] \<Rightarrow>
                     (case arity0 attributeMap of
                        None \<Rightarrow> Inl WrongArity
                      | Some i \<Rightarrow> if i = 0 then Inl WrongArity else Inr (Number i))
                 | [x] \<Rightarrow>
                     (case arity1 attributeMap of
                        None \<Rightarrow> Inl WrongArity
                      | Some m1 \<Rightarrow>
                          (case m1 x of
                             None \<Rightarrow> read_inherited proto 1 [x] []
                           | Some i \<Rightarrow> own_id 1 i))
                 | [x, y] \<Rightarrow>
                     (case arity2 attributeMap of
                        None \<Rightarrow> Inl WrongArity
                      | Some m2 \<Rightarrow>
                          (case m2 x of
                             None \<Rightarrow> read_inherited proto 1 [x] [y]
                           | Some m1 \<Rightarrow>
                               (case m1 y of
                                  None \<Rightarrow> read_inherited proto 2 [y] []
                                | Some i \<Rightarrow> own_id 2 i)))
                 | [x, y, z] \<Rightarrow>
                     (case arity3 attributeMap of
                        None \<Rightarrow> Inl WrongArity
                      | Some m3 \<Rightarrow>
                          (case m3 x of
                             None \<Rightarrow> read_inherited proto 1 [x] [y, z]
                           | Some m2 \<Rightarrow>
                               (case m2 y of
                                  None \<Rightarrow> read_inherited proto 2 [y] [z]
                                | Some m1 \<Rightarrow>
                                    (case m1 z of
                                       None \<Rightarrow> read_inherited proto 3 [z] []
                                     | Some i \<Rightarrow> own_id 3 i))))
                 | _ \<Rightarrow> Inl InternalArity)))"

subsection \<open>\<^verbatim>\<open>Problem\<close>: the registry\<close>

text \<open>\<^verbatim>\<open>generate(prop?)\<close>; the call without argument passes the empty string.\<close>

definition generate :: "Attribute \<Rightarrow> Problem \<Rightarrow> InternalAttribute \<times> Problem" where
  "generate prop p =
     (let newLiteral = length (fromInternal p) in
      (newLiteral, p\<lparr>fromInternal := fromInternal p @ [prop]\<rparr>))"

text \<open>
  The loops of \<^verbatim>\<open>attribute\<close> that fill the nested maps. \<open>declare1 label xs fi\<close> is
  \<^verbatim>\<open>for (const x of xs) map[x] = this.generate(`${label} ${x}`)\<close> on a fresh \<^verbatim>\<open>map\<close>,
  with \<open>fi\<close> the array \<^verbatim>\<open>fromInternal\<close>; the loops of arity 2 and 3 nest it.
\<close>

definition declare1 ::
  "string \<Rightarrow> string list \<Rightarrow> Attribute list \<Rightarrow> Attribute list \<times> (string \<rightharpoonup> InternalAttribute)" where
  "declare1 label xs fi =
     fold (\<lambda>x (fi, m). (fi @ [label @ '' '' @ x], m(x \<mapsto> length fi))) xs (fi, Map.empty)"

definition declare2 ::
  "string \<Rightarrow> string list \<Rightarrow> string list \<Rightarrow> Attribute list
     \<Rightarrow> Attribute list \<times> (string \<rightharpoonup> (string \<rightharpoonup> InternalAttribute))" where
  "declare2 label xs ys fi =
     fold (\<lambda>x (fi, m). (case declare1 (label @ '' '' @ x) ys fi of
                            (fi', mx) \<Rightarrow> (fi', m(x \<mapsto> mx)))) xs (fi, Map.empty)"

definition declare3 ::
  "string \<Rightarrow> string list \<Rightarrow> string list \<Rightarrow> string list \<Rightarrow> Attribute list
     \<Rightarrow> Attribute list \<times> (string \<rightharpoonup> (string \<rightharpoonup> (string \<rightharpoonup> InternalAttribute)))" where
  "declare3 label xs ys zs fi =
     fold (\<lambda>x (fi, m). (case declare2 (label @ '' '' @ x) ys zs fi of
                            (fi', mx) \<Rightarrow> (fi', m(x \<mapsto> mx)))) xs (fi, Map.empty)"

definition empty_slot :: slot where
  "empty_slot = \<lparr> arity0 = None, arity1 = None, arity2 = None, arity3 = None \<rparr>"

text \<open>
  \<^verbatim>\<open>this.toInternal[name] = [..]\<close> creates or replaces the own property \<open>name\<close>.
\<close>

definition set_own :: "string \<Rightarrow> slot \<Rightarrow> AttributeMap \<Rightarrow> AttributeMap" where
  "set_own name s m = m\<lparr>own := (own m)(name \<mapsto> s)\<rparr>"

text \<open>
  The test \<^verbatim>\<open>if (this.toInternal[name])\<close> also sees the prototype chain: when \<open>name\<close>
  is no own property and the chain has a truthy value under it (or the read throws),
  \<^verbatim>\<open>this.toInternal[name].findIndex\<close> is no function and the call throws a \<^verbatim>\<open>TypeError\<close>.
\<close>

definition attribute :: "string \<Rightarrow> string list list \<Rightarrow> Problem \<Rightarrow> Problem \<times> error option" where
  "attribute name args p =
     (if length args \<ge> 4 then (p, Some UnsupportedArity)
      else if \<not> IDENT_REGEX name then (p, Some MalformedName)
      else if \<not> list_all (list_all IDENT_REGEX) args then (p, Some MalformedElement)
      else if (case own (toInternal p) name of
                 None \<Rightarrow> \<not> falsy (prototype (toInternal p) [name])
               | Some s \<Rightarrow> False)
        then (p, Some TypeError)
      else if (case own (toInternal p) name of None \<Rightarrow> False | Some s \<Rightarrow> \<not> slot_undefined s)
        then (p, Some PreviouslyDeclared)
      else (case args of
              [] \<Rightarrow>
                (case generate name p of
                   (i, p1) \<Rightarrow>
                     (p1\<lparr>toInternal := set_own name (empty_slot\<lparr>arity0 := Some i\<rparr>) (toInternal p1)\<rparr>,
                      None))
            | [d1] \<Rightarrow>
                (case declare1 name d1 (fromInternal p) of
                   (fi, m) \<Rightarrow>
                     (p\<lparr>fromInternal := fi,
                        toInternal := set_own name (empty_slot\<lparr>arity1 := Some m\<rparr>) (toInternal p)\<rparr>,
                      None))
            | [d1, d2] \<Rightarrow>
                (case declare2 name d1 d2 (fromInternal p) of
                   (fi, m) \<Rightarrow>
                     (p\<lparr>fromInternal := fi,
                        toInternal := set_own name (empty_slot\<lparr>arity2 := Some m\<rparr>) (toInternal p)\<rparr>,
                      None))
            | [d1, d2, d3] \<Rightarrow>
                (case declare3 name d1 d2 d3 (fromInternal p) of
                   (fi, m) \<Rightarrow>
                     (p\<lparr>fromInternal := fi,
                        toInternal := set_own name (empty_slot\<lparr>arity3 := Some m\<rparr>) (toInternal p)\<rparr>,
                      None))
            | _ \<Rightarrow> (p, Some UnsupportedArity)))"

subsection \<open>\<^verbatim>\<open>Problem\<close>: the constraint store\<close>

definition reset :: "Problem \<Rightarrow> Problem" where
  "reset p =
     (case nonRuleConstraints p of
        None \<Rightarrow> p
      | Some n \<Rightarrow> p\<lparr>constraints := take n (constraints p)\<rparr>)\<lparr>nonRuleConstraints := None\<rparr>"

definition push :: "Constraint list \<Rightarrow> Problem \<Rightarrow> Problem" where
  "push cs p = p\<lparr>constraints := constraints p @ cs\<rparr>"

text \<open>\<^verbatim>\<open>sign * v\<close> for a sign \<open>1\<close> or \<open>-1\<close> and a value \<open>v\<close> that a lookup returned.\<close>

definition times_sign :: "int \<Rightarrow> T \<Rightarrow> number" where
  "times_sign sign v = (case v of Number n \<Rightarrow> Num (sign * int n) | NotNumber \<Rightarrow> NaN)"

definition lookup :: "Problem \<Rightarrow> Proposition \<Rightarrow> error + InternalProposition" where
  "lookup p prop =
     (case prop of
        [] \<Rightarrow> map_sum id (times_sign 1) (lookupAttributeInMap prop (toInternal p))
      | c # rest \<Rightarrow>
          if c = CHR ''!'' then map_sum id (times_sign (- 1)) (lookupAttributeInMap rest (toInternal p))
          else map_sum id (times_sign 1) (lookupAttributeInMap prop (toInternal p)))"

text \<open>\<^verbatim>\<open>propositions.map((arg) => this.lookup(arg))\<close>: the first failing lookup throws.\<close>

fun lookups :: "Problem \<Rightarrow> Proposition list \<Rightarrow> error + InternalProposition list" where
  "lookups p [] = Inr []"
| "lookups p (x # xs) =
     (case lookup p x of
        Inl e \<Rightarrow> Inl e
      | Inr l \<Rightarrow> (case lookups p xs of Inl e \<Rightarrow> Inl e | Inr ls \<Rightarrow> Inr (l # ls)))"

definition quantify :: "rat \<Rightarrow> rat \<Rightarrow> Proposition list \<Rightarrow> Problem \<Rightarrow> Problem \<times> error option" where
  "quantify mn mx propositions p =
     (if \<not> (0 \<le> mx \<and> \<lceil>mn\<rceil> \<le> \<lfloor>mx\<rfloor> \<and> mn \<le> of_nat (length propositions))
        then (p, Some Unsatisfiable)
      else if mn \<le> 0 \<and> mx \<ge> of_nat (length propositions) then (p, Some TriviallySatisfied)
      else (case lookups p propositions of
              Inl e \<Rightarrow> (p, Some e)
            | Inr cl \<Rightarrow>
                (push [\<lparr> lo = max 0 \<lceil>mn\<rceil>,
                         hi = min (int (length propositions)) \<lfloor>mx\<rfloor>,
                         clause = cl \<rparr>] (reset p), None)))"

text \<open>\<^verbatim>\<open>Math.round\<close> rounds to the nearest integer, a half towards \<open>+\<infinity>\<close>.\<close>

definition Math_round :: "rat \<Rightarrow> int" where
  "Math_round n = \<lfloor>n + 1 / 2\<rfloor>"

definition exactly :: "rat \<Rightarrow> Proposition list \<Rightarrow> Problem \<Rightarrow> Problem \<times> error option" where
  "exactly n propositions p =
     (if \<not> (0 \<le> n \<and> n \<le> of_nat (length propositions) \<and> of_int (Math_round n) = n)
        then (p, Some Unsatisfiable)
      else if length propositions = 0 then (p, Some TriviallySatisfied)
      else quantify n n propositions p)"

definition all_c :: "Proposition list \<Rightarrow> Problem \<Rightarrow> Problem \<times> error option" where
  "all_c propositions p =
     (if length propositions = 0 then (p, Some TriviallySatisfied)
      else quantify (of_nat (length propositions)) (of_nat (length propositions)) propositions p)"

definition atLeast_c :: "rat \<Rightarrow> Proposition list \<Rightarrow> Problem \<Rightarrow> Problem \<times> error option" where
  "atLeast_c mn propositions p =
     (if mn > of_nat (length propositions) then (p, Some Unsatisfiable)
      else if mn \<le> 0 then (p, Some TriviallySatisfied)
      else quantify mn (of_nat (length propositions)) propositions p)"

definition atMost_c :: "rat \<Rightarrow> Proposition list \<Rightarrow> Problem \<Rightarrow> Problem \<times> error option" where
  "atMost_c mx propositions p =
     (if mx < 0 then (p, Some Unsatisfiable)
      else if mx \<ge> of_nat (length propositions) then (p, Some TriviallySatisfied)
      else quantify 0 mx propositions p)"

definition unique :: "Proposition list \<Rightarrow> Problem \<Rightarrow> Problem \<times> error option" where
  "unique propositions p =
     (if length propositions = 0 then (p, Some Unsatisfiable)
      else quantify 1 1 propositions p)"

definition inconsistent :: "Proposition \<Rightarrow> Proposition \<Rightarrow> Problem \<Rightarrow> Problem \<times> error option" where
  "inconsistent a b p = atMost_c 1 [a, b] p"

text \<open>The unary minus, and the test \<^verbatim>\<open>x < 0\<close>, of JavaScript numbers.\<close>

fun neg :: "number \<Rightarrow> number" where
  "neg (Num i) = Num (- i)"
| "neg NaN = NaN"

fun negative :: "number \<Rightarrow> bool" where
  "negative (Num i) = (i < 0)"
| "negative NaN = False"

definition implies_c :: "Proposition list \<Rightarrow> Proposition \<Rightarrow> Problem \<Rightarrow> Problem \<times> error option" where
  "implies_c premises conclusion p =
     (case lookup p conclusion of
        Inl e \<Rightarrow> (p, Some e)
      | Inr conc \<Rightarrow>
          (case lookups p premises of
             Inl e \<Rightarrow> (p, Some e)
           | Inr ls \<Rightarrow>
               (let cl = map neg ls @ [conc] in
                (push [\<lparr> lo = 1, hi = int (length cl), clause = cl \<rparr>] (reset p), None))))"

definition iff :: "InternalProposition list \<Rightarrow> InternalProposition \<Rightarrow> Problem \<Rightarrow> Problem" where
  "iff premises conclusion p =
     (let p1 = push (map (\<lambda>premise. \<lparr> lo = 1, hi = 2, clause = [premise, neg conclusion] \<rparr>) premises) p;
          cl = map neg premises @ [conclusion]
      in push [\<lparr> lo = 1, hi = int (length cl), clause = cl \<rparr>] p1)"

definition equal_c :: "Proposition list \<Rightarrow> Proposition list \<Rightarrow> Problem \<Rightarrow> Problem \<times> error option" where
  "equal_c a b p =
     (if length a = 0 \<and> length b = 0 then (p, Some Vacuous)
      else if length a = 0 then all_c b p
      else if length b = 0 then all_c a p
      else
        (let p1 = reset p in
         if length a = 1 then
           (if length b = 1 then
              (case lookup p1 (a ! 0) of
                 Inl e \<Rightarrow> (p1, Some e)
               | Inr literalA \<Rightarrow>
                   (case lookup p1 (b ! 0) of
                      Inl e \<Rightarrow> (p1, Some e)
                    | Inr literalB \<Rightarrow>
                        (push [\<lparr> lo = 1, hi = 2, clause = [literalA, neg literalB] \<rparr>,
                               \<lparr> lo = 1, hi = 2, clause = [neg literalA, literalB] \<rparr>] p1, None)))
            else
              (case lookups p1 b of
                 Inl e \<Rightarrow> (p1, Some e)
               | Inr premises \<Rightarrow>
                   (case lookup p1 (a ! 0) of
                      Inl e \<Rightarrow> (p1, Some e)
                    | Inr conclusion \<Rightarrow> (iff premises conclusion p1, None))))
         else
           (if length b = 1 then
              (case lookups p1 a of
                 Inl e \<Rightarrow> (p1, Some e)
               | Inr premises \<Rightarrow>
                   (case lookup p1 (b ! 0) of
                      Inl e \<Rightarrow> (p1, Some e)
                    | Inr conclusion \<Rightarrow> (iff premises conclusion p1, None)))
            else
              (case generate [] p1 of
                 (hiddenPred, p2) \<Rightarrow>
                   (case lookups p2 a of
                      Inl e \<Rightarrow> (p2, Some e)
                    | Inr conjunctA \<Rightarrow>
                        (case lookups p2 b of
                           Inl e \<Rightarrow> (p2, Some e)
                         | Inr conjunctB \<Rightarrow>
                             (iff conjunctB (Num (int hiddenPred))
                                (iff conjunctA (Num (int hiddenPred)) p2), None)))))))"

definition assert_c :: "Proposition \<Rightarrow> Problem \<Rightarrow> Problem \<times> error option" where
  "assert_c a p = all_c [a] p"

text \<open>
  The order in which \<^verbatim>\<open>Object.entries\<close> lists two keys of \<^verbatim>\<open>rules\<close>: integers ascending,
  \<^verbatim>\<open>'NaN'\<close> last.
\<close>

fun key_before :: "number \<Rightarrow> number \<Rightarrow> bool" where
  "key_before (Num a) (Num b) = (a < b)"
| "key_before (Num a) NaN = True"
| "key_before NaN k = False"

text \<open>
  \<^verbatim>\<open>if (!this.rules[conc]) this.rules[conc] = []; this.rules[conc].push(j)\<close>, on the
  entries in the order of their keys.
\<close>

fun rules_push ::
  "number \<Rightarrow> InternalProposition \<Rightarrow> (number \<times> InternalProposition list) list
     \<Rightarrow> (number \<times> InternalProposition list) list" where
  "rules_push h j [] = [(h, [j])]"
| "rules_push h j ((k, js) # rs) =
     (if h = k then (k, js @ [j]) # rs
      else if key_before h k then (h, [j]) # (k, js) # rs
      else (k, js) # rules_push h j rs)"

definition rule_c :: "Attribute \<Rightarrow> Proposition list \<Rightarrow> Problem \<Rightarrow> Problem \<times> error option" where
  "rule_c conclusion premises p =
     (case lookup p conclusion of
        Inl e \<Rightarrow> (p, Some e)
      | Inr conc \<Rightarrow>
          (case lookups p premises of
             Inl e \<Rightarrow> (p, Some e)
           | Inr prems \<Rightarrow>
               if negative conc then (p, Some NegatedConclusion)
               else
                 (case implies_c premises conclusion p of
                    (p1, Some e) \<Rightarrow> (p1, Some e)
                  | (p1, None) \<Rightarrow>
                      if length premises = 0 then
                        (p1\<lparr>rules := rules_push conc (Num 0) (rules p1)\<rparr>, None)
                      else if length premises = 1 then
                        (p1\<lparr>rules := rules_push conc (prems ! 0) (rules p1)\<rparr>, None)
                      else
                        (case generate [] p1 of
                           (standin, p2) \<Rightarrow>
                             (let p3 = iff prems (Num (int standin)) p2 in
                              (p3\<lparr>rules := rules_push conc (Num (int standin)) (rules p3)\<rparr>,
                               None))))))"

subsection \<open>\<^verbatim>\<open>Problem.satisfies\<close>: scoring an assignment\<close>

text \<open>
  An \<^verbatim>\<open>Assignment\<close> is a \<^verbatim>\<open>boolean[]\<close>. Reading it beyond its length, or at \<^verbatim>\<open>NaN\<close>,
  gives \<^verbatim>\<open>undefined\<close>, which is falsy. \<open>lookup_literal\<close> is the local function
  \<^verbatim>\<open>lookup(assignment, literal)\<close> of \<^verbatim>\<open>satisfies\<close>:
  \<^verbatim>\<open>literal < 0 ? !assignment[-literal] : assignment[literal]\<close>.
\<close>

definition truthy_at :: "Assignment \<Rightarrow> nat \<Rightarrow> bool" where
  "truthy_at a i = (i < length a \<and> a ! i)"

definition lookup_literal :: "Assignment \<Rightarrow> InternalProposition \<Rightarrow> bool" where
  "lookup_literal a literal =
     (case literal of
        NaN \<Rightarrow> False
      | Num l \<Rightarrow> if l < 0 then \<not> truthy_at a (nat (- l)) else truthy_at a (nat l))"

text \<open>
  One of the four loops \<^verbatim>\<open>for (const literal of clause) if (..) suggestionMap[Math.abs(literal)] += d\<close>:
  \<open>want\<close> says whether the loop visits the satisfied or the unsatisfied literals.
  \<^verbatim>\<open>suggestionMap\<close> has the length of the assignment. A literal beyond it stores
  \<^verbatim>\<open>undefined + d = NaN\<close> past the end, and the literal \<^verbatim>\<open>NaN\<close> stores it under a property
  that is no index; neither is ever a candidate in the selection loop below (\<^verbatim>\<open>NaN === 0\<close>
  and \<^verbatim>\<open>NaN > 0\<close> are false), and the model leaves the list as it is in both cases.
\<close>

definition adjust :: "int \<Rightarrow> bool \<Rightarrow> Assignment \<Rightarrow> Clause \<Rightarrow> int list \<Rightarrow> int list" where
  "adjust d want a cl suggestionMap =
     fold (\<lambda>literal sm.
             if lookup_literal a literal = want
             then (case literal of
                     NaN \<Rightarrow> sm
                   | Num l \<Rightarrow>
                       if nat \<bar>l\<bar> < length sm then sm[nat \<bar>l\<bar> := sm ! nat \<bar>l\<bar> + d]
                       else sm)
             else sm)
          cl suggestionMap"

definition numLiteralsInClauseSatisfied :: "Assignment \<Rightarrow> Clause \<Rightarrow> int" where
  "numLiteralsInClauseSatisfied a cl = int (length (filter (lookup_literal a) cl))"

text \<open>The body of the \<^verbatim>\<open>reduce\<close> over the constraints, on the pair of \<^verbatim>\<open>accum\<close> and \<^verbatim>\<open>suggestionMap\<close>.\<close>

definition score_constraint :: "Assignment \<Rightarrow> Constraint \<Rightarrow> nat \<times> int list \<Rightarrow> nat \<times> int list" where
  "score_constraint a c acc =
     (let n = numLiteralsInClauseSatisfied a (clause c); accum = fst acc; sm = snd acc in
      if lo c \<le> n \<and> n \<le> hi c then
        (accum + 1,
         (let sm1 = (if lo c = n then adjust (- 1) True a (clause c) sm else sm)
          in if hi c = n then adjust (- 1) False a (clause c) sm1 else sm1))
      else
        (accum,
         (let sm1 = (if n = lo c - 1 then adjust 1 False a (clause c) sm else sm)
          in if n = hi c + 1 then adjust 1 True a (clause c) sm1 else sm1)))"

definition scores :: "Constraint list \<Rightarrow> Assignment \<Rightarrow> nat \<times> int list" where
  "scores cs a = fold (score_constraint a) cs (0, map (\<lambda>_. 0) a)"

text \<open>
  The selection loop, from index \<open>i\<close> on the scores not yet visited:
  \<^verbatim>\<open>if (suggestionMap[i] === bestNum) best.push(i); if (suggestionMap[i] > bestNum) best = [i];\<close>
  where \<^verbatim>\<open>bestNum\<close> is \<open>0\<close> throughout (the source never assigns it again).
\<close>

fun best_loop :: "int list \<Rightarrow> nat \<Rightarrow> InternalAttribute list \<Rightarrow> InternalAttribute list" where
  "best_loop [] i best = best"
| "best_loop (s # ss) i best =
     best_loop ss (Suc i)
       (let best1 = (if s = 0 then best @ [i] else best)
        in if s > 0 then [i] else best1)"

definition best_candidates :: "int list \<Rightarrow> InternalAttribute list" where
  "best_candidates suggestionMap = best_loop (drop 1 suggestionMap) 1 []"

text \<open>\<^verbatim>\<open>xs[i]\<close> for a number \<open>i\<close>: \<^verbatim>\<open>undefined\<close> outside the list.\<close>

definition index_opt :: "'a list \<Rightarrow> int \<Rightarrow> 'a option" where
  "index_opt xs i = (if 0 \<le> i \<and> nat i < length xs then Some (xs ! nat i) else None)"

text \<open>
  \<open>satisfies\<close> returns \<open>None\<close> for \<^verbatim>\<open>null\<close> and otherwise the pair of
  \<^verbatim>\<open>clausesSatisfied\<close> and \<^verbatim>\<open>suggestion\<close> (\<open>None\<close> for \<^verbatim>\<open>undefined\<close>), with the next
  position of the random sequence.
\<close>

definition satisfies ::
  "Constraint list \<Rightarrow> Assignment \<Rightarrow> (nat \<Rightarrow> rat) \<Rightarrow> nat
     \<Rightarrow> (nat \<times> InternalAttribute option) option \<times> nat" where
  "satisfies cs a rnd k =
     (case scores cs a of
        (clausesSatisfied, suggestionMap) \<Rightarrow>
          if clausesSatisfied = length cs then (None, k)
          else
            (let best = best_candidates suggestionMap in
             (Some (clausesSatisfied, index_opt best \<lfloor>rnd k * of_nat (length best)\<rfloor>), k + 1)))"

subsection \<open>\<^verbatim>\<open>Problem.solve\<close>\<close>

text \<open>The block \<^verbatim>\<open>if (this.nonRuleConstraints === null) { .. }\<close> that opens \<^verbatim>\<open>solve\<close>.\<close>

text \<open>
  \<open>head\<close> stands for \<^verbatim>\<open>parseInt(head)\<close>, the number whose key \<^verbatim>\<open>head\<close> is
  (\<^verbatim>\<open>parseInt('NaN')\<close> is \<^verbatim>\<open>NaN\<close>).
\<close>

definition completion_clause :: "number \<times> InternalProposition list \<Rightarrow> Constraint" where
  "completion_clause e =
     (case e of (head, possibleJustifications) \<Rightarrow>
        \<lparr> lo = 1, hi = int (length possibleJustifications) + 1,
          clause = neg head # possibleJustifications \<rparr>)"

definition complete :: "Problem \<Rightarrow> Problem" where
  "complete p =
     (case nonRuleConstraints p of
        None \<Rightarrow>
          p\<lparr>nonRuleConstraints := Some (length (constraints p)),
            constraints := constraints p @ map completion_clause (rules p)\<rparr>
      | Some n \<Rightarrow> p)"

text \<open>
  \<^verbatim>\<open>assignment[i] = !assignment[i]\<close> for a number \<open>i\<close>. Inside the array the element is
  negated. At \<open>i = length\<close> the array grows by \<^verbatim>\<open>!undefined = true\<close>. A negative \<open>i\<close> and
  \<^verbatim>\<open>undefined\<close> name a property that is no element. (An \<open>i\<close> beyond the length would
  leave holes; the model writes them \<open>False\<close>. With \<open>0 \<le> Math.random() < 1\<close> the
  search loop never asks for that.)
\<close>

definition flip :: "Assignment \<Rightarrow> int \<Rightarrow> Assignment" where
  "flip a i =
     (if i < 0 then a
      else if nat i < length a then a[nat i := \<not> a ! nat i]
      else a @ replicate (nat i - length a) False @ [True])"

definition flip_suggestion :: "Assignment \<Rightarrow> InternalAttribute option \<Rightarrow> Assignment" where
  "flip_suggestion a suggestion = (case suggestion of None \<Rightarrow> a | Some i \<Rightarrow> flip a (int i))"

record search_state =
  assignment :: Assignment
  noise :: rat
  result :: "(nat \<times> InternalAttribute option) option"
  window :: "nat list"
  iteration :: nat
  failsafe :: nat
  pos :: nat

text \<open>
  One pass through the body of \<^verbatim>\<open>while (result !== null)\<close>, up to and including
  \<^verbatim>\<open>failsafe -= 1\<close>; \<open>r\<close> is the non-null \<^verbatim>\<open>result\<close>.
\<close>

definition iterate ::
  "Constraint list \<Rightarrow> (nat \<Rightarrow> rat) \<Rightarrow> nat \<Rightarrow> nat \<times> InternalAttribute option
     \<Rightarrow> search_state \<Rightarrow> search_state" where
  "iterate cs rnd windowSize r s =
     (let a = assignment s;
          flipped =
            (if rnd (pos s) > noise s then (flip_suggestion a (snd r), pos s + 1)
             else (flip a (1 + \<lfloor>rnd (pos s + 1) * (of_nat (length a) - 1)\<rfloor>), pos s + 2));
          noise1 =
            (if list_all (\<lambda>clausesSatisfied. clausesSatisfied \<ge> fst r) (window s)
             then noise s + (1 - noise s) * (1 / 5)
             else noise s - noise s * (1 / 20));
          window1 = (window s)[iteration s mod windowSize := fst r];
          sat = satisfies cs (fst flipped) rnd (snd flipped)
      in \<lparr> assignment = fst flipped, noise = noise1, result = fst sat, window = window1,
           iteration = iteration s + 1, failsafe = failsafe s - 1, pos = snd sat \<rparr>)"

text \<open>
  The loop. \<^verbatim>\<open>failsafe\<close> starts at 50000 and the loop throws when it reaches \<open>0\<close>, so it
  is a \<open>nat\<close> here and the recursion descends on it.
\<close>

function search :: "Constraint list \<Rightarrow> (nat \<Rightarrow> rat) \<Rightarrow> nat \<Rightarrow> search_state
     \<Rightarrow> search_state \<times> error option" where
  "search cs rnd windowSize s =
     (case result s of
        None \<Rightarrow> (s, None)
      | Some r \<Rightarrow>
          (let s1 = iterate cs rnd windowSize r s in
           if failsafe s1 = 0 then (s1, Some Timeout)
           else search cs rnd windowSize s1))"
  by pat_completeness auto
termination
  by (relation "measure (\<lambda>(cs, rnd, windowSize, s). failsafe s)")
     (auto simp: iterate_def Let_def)

declare search.simps [simp del]

text \<open>\<^verbatim>\<open>this.fromInternal.map(() => Math.random() >= 0.5); assignment[0] = true\<close>\<close>

definition initial_assignment :: "(nat \<Rightarrow> rat) \<Rightarrow> nat \<Rightarrow> nat \<Rightarrow> Assignment" where
  "initial_assignment rnd k n =
     (case map (\<lambda>i. rnd (k + i) \<ge> 1 / 2) [0..<n] of
        [] \<Rightarrow> [True]
      | b # bs \<Rightarrow> True # bs)"

definition initial_state :: "(nat \<Rightarrow> rat) \<Rightarrow> nat \<Rightarrow> Problem \<Rightarrow> search_state" where
  "initial_state rnd k p =
     (let a = initial_assignment rnd k (length (fromInternal p));
          sat = satisfies (constraints p) a rnd (k + length (fromInternal p));
          windowSize = max 3 (nat \<lceil>(of_nat (length (constraints p)) :: rat) / 6\<rceil>)
      in \<lparr> assignment = a, noise = 0, result = fst sat, window = replicate windowSize 0,
           iteration = 0, failsafe = 50000, pos = snd sat \<rparr>)"

text \<open>
  \<open>solve_run\<close> is \<^verbatim>\<open>solve\<close> up to the end of the loop: the problem it leaves behind,
  the final values of the local variables, and the error if the loop threw.
\<close>

definition solve_run :: "(nat \<Rightarrow> rat) \<Rightarrow> nat \<Rightarrow> Problem \<Rightarrow> Problem \<times> search_state \<times> error option" where
  "solve_run rnd k p =
     (let p1 = complete p;
          s0 = initial_state rnd k p1
      in (p1, search (constraints p1) rnd (length (window s0)) s0))"

subsection \<open>\<^verbatim>\<open>Solution\<close>\<close>

text \<open>
  A \<^verbatim>\<open>Solution\<close> owns the array \<^verbatim>\<open>satisfyingAssignment\<close> and shares \<^verbatim>\<open>toInternal\<close> and
  \<^verbatim>\<open>fromInternal\<close> with its \<^verbatim>\<open>Problem\<close>, which updates both in place: a read of a
  solution sees the registry the problem has at the time of the read. The model passes
  that registry as an argument.
\<close>

record Solution =
  satisfyingAssignment :: "bool list"

definition solve :: "(nat \<Rightarrow> rat) \<Rightarrow> nat \<Rightarrow> Problem \<Rightarrow> Problem \<times> (error + Solution)" where
  "solve rnd k p =
     (case solve_run rnd k p of
        (p1, s, Some e) \<Rightarrow> (p1, Inl e)
      | (p1, s, None) \<Rightarrow> (p1, Inr \<lparr> satisfyingAssignment = assignment s \<rparr>))"

text \<open>
  The \<^verbatim>\<open>get\<close> trap of the proxy behind \<^verbatim>\<open>Solution.lookup\<close>. When \<^verbatim>\<open>internal\<close> is no
  number, \<^verbatim>\<open>internal >= satisfyingAssignment.length\<close> is false and the trap returns
  \<^verbatim>\<open>satisfyingAssignment[internal]\<close>, the property of the array named by the value: that
  is no entry of the assignment, and the model returns \<open>None\<close> for it.
\<close>

definition Solution_lookup :: "Solution \<Rightarrow> AttributeMap \<Rightarrow> Attribute \<Rightarrow> error + bool option" where
  "Solution_lookup s toInt attr =
     (case lookupAttributeInMap attr toInt of
        Inl e \<Rightarrow> Inl e
      | Inr NotNumber \<Rightarrow> Inr None
      | Inr (Number internal) \<Rightarrow>
          if internal \<ge> length (satisfyingAssignment s) then Inl DefinedAfter
          else Inr (Some (satisfyingAssignment s ! internal)))"

text \<open>
  \<^verbatim>\<open>trueAttributes\<close> (without its cache). \<^verbatim>\<open>this.fromInternal[i]\<close> is \<^verbatim>\<open>undefined\<close>
  (\<open>None\<close>) for an index beyond \<^verbatim>\<open>fromInternal\<close>; \<^verbatim>\<open>sort\<close> orders the strings by their
  code units and puts \<^verbatim>\<open>undefined\<close> last.
\<close>

definition trueAttributes :: "Solution \<Rightarrow> Attribute list \<Rightarrow> string option list" where
  "trueAttributes s fromInt =
     (let names = filter (\<lambda>x. x \<noteq> Some [])
                    (map (\<lambda>i. index_opt fromInt (int i))
                       (filter (\<lambda>i. satisfyingAssignment s ! i \<and> 0 < i)
                          [0..<length (satisfyingAssignment s)]))
      in map Some (sort (List.map_filter id names)) @ filter (\<lambda>x. x = None) names)"

subsection \<open>Calls and reachable problems\<close>

datatype call =
    Attribute string "string list list"
  | Quantify rat rat "Proposition list"
  | Exactly rat "Proposition list"
  | All "Proposition list"
  | AtLeast rat "Proposition list"
  | AtMost rat "Proposition list"
  | Unique "Proposition list"
  | Inconsistent Proposition Proposition
  | Implies "Proposition list" Proposition
  | Equal "Proposition list" "Proposition list"
  | Assert Proposition
  | Rule Attribute "Proposition list"
  | Solve "nat \<Rightarrow> rat" nat

text \<open>The error of a call, and the problem it leaves behind (also when it throws).\<close>

fun run :: "call \<Rightarrow> Problem \<Rightarrow> Problem \<times> error option" where
  "run (Attribute name args) p = attribute name args p"
| "run (Quantify mn mx ps) p = quantify mn mx ps p"
| "run (Exactly n ps) p = exactly n ps p"
| "run (All ps) p = all_c ps p"
| "run (AtLeast mn ps) p = atLeast_c mn ps p"
| "run (AtMost mx ps) p = atMost_c mx ps p"
| "run (Unique ps) p = unique ps p"
| "run (Inconsistent a b) p = inconsistent a b p"
| "run (Implies ps c) p = implies_c ps c p"
| "run (Equal a b) p = equal_c a b p"
| "run (Assert a) p = assert_c a p"
| "run (Rule c ps) p = rule_c c ps p"
| "run (Solve rnd k) p =
     (case solve rnd k p of (p1, Inl e) \<Rightarrow> (p1, Some e) | (p1, Inr s) \<Rightarrow> (p1, None))"

definition exec :: "call \<Rightarrow> Problem \<Rightarrow> Problem" where
  "exec c p = fst (run c p)"

text \<open>
  The problems a program can hold: \<^verbatim>\<open>new Problem()\<close>, in any realm, followed by any calls
  of its methods.
\<close>

inductive reachable :: "Problem \<Rightarrow> bool" where
  reachable_new: "reachable (new_Problem proto)"
| reachable_exec: "reachable p \<Longrightarrow> reachable (exec c p)"

definition random_ok :: "(nat \<Rightarrow> rat) \<Rightarrow> bool" where
  "random_ok rnd = (\<forall>i. 0 \<le> rnd i \<and> rnd i < 1)"

section \<open>Notions used in the proofs\<close>

text \<open>
  \<open>clause_sat\<close> is the test of \<^verbatim>\<open>satisfies\<close> on one constraint. \<open>search_inv\<close> is what the
  search loop keeps when the assignment has at least one atom: its length, the entry at
  index \<open>0\<close>, and that \<^verbatim>\<open>result\<close> is the score of the current assignment. \<open>lit_ok n l\<close> says
  that the literal \<open>l\<close> is an integer whose atom is below \<open>n\<close>.
\<close>

definition lit_ok :: "nat \<Rightarrow> InternalProposition \<Rightarrow> bool" where
  "lit_ok n l = (case l of NaN \<Rightarrow> False | Num i \<Rightarrow> nat \<bar>i\<bar> < n)"

definition clause_sat :: "Assignment \<Rightarrow> Constraint \<Rightarrow> bool" where
  "clause_sat a c =
     (lo c \<le> numLiteralsInClauseSatisfied a (clause c) \<and> numLiteralsInClauseSatisfied a (clause c) \<le> hi c)"

definition search_inv :: "Constraint list \<Rightarrow> (nat \<Rightarrow> rat) \<Rightarrow> nat \<Rightarrow> search_state \<Rightarrow> bool" where
  "search_inv cs rnd N s =
     (length (assignment s) = N \<and> assignment s ! 0 \<and>
      (\<exists>k. result s = fst (satisfies cs (assignment s) rnd k)))"

text \<open>
  The ids that the own properties of a slot hold. \<open>registry_ok\<close> says that they index
  \<^verbatim>\<open>fromInternal\<close> and that no slot is \<^verbatim>\<open>[undefined, undefined, undefined, undefined]\<close>;
  \<open>extends p q\<close> says that the registry of \<open>q\<close> is that of \<open>p\<close> with more ids minted
  behind it. \<open>declared_id attr m\<close> is the id of an attribute whose predicate and arguments
  are all own properties of the registry \<open>m\<close>: the lookup that sees nothing of the
  prototype chain.
\<close>

definition slot_ids :: "slot \<Rightarrow> nat set" where
  "slot_ids sl =
     (case arity0 sl of None \<Rightarrow> {} | Some i \<Rightarrow> {i}) \<union>
     (case arity1 sl of None \<Rightarrow> {} | Some m \<Rightarrow> ran m) \<union>
     (case arity2 sl of None \<Rightarrow> {} | Some m \<Rightarrow> \<Union> (ran ` ran m)) \<union>
     (case arity3 sl of None \<Rightarrow> {} | Some m \<Rightarrow> \<Union> (ran ` \<Union> (ran ` ran m)))"

definition registry_ok :: "Problem \<Rightarrow> bool" where
  "registry_ok p =
     (\<forall>name sl. own (toInternal p) name = Some sl \<longrightarrow>
        (\<forall>i \<in> slot_ids sl. i < length (fromInternal p)) \<and> \<not> slot_undefined sl)"

definition extends :: "Problem \<Rightarrow> Problem \<Rightarrow> bool" where
  "extends p q =
     ((\<exists>ext. fromInternal q = fromInternal p @ ext) \<and>
      prototype (toInternal q) = prototype (toInternal p) \<and>
      (\<forall>name sl. own (toInternal p) name = Some sl \<longrightarrow> own (toInternal q) name = Some sl) \<and>
      (\<forall>name sl. own (toInternal q) name = Some sl \<longrightarrow>
          own (toInternal p) name = Some sl \<or>
          (own (toInternal p) name = None \<and> (\<forall>i \<in> slot_ids sl. length (fromInternal p) \<le> i))))"

definition declared_id :: "Attribute \<Rightarrow> AttributeMap \<Rightarrow> InternalAttribute option" where
  "declared_id attr m =
     (case lookupAttributeInMap attr (m\<lparr>prototype := (\<lambda>names. Nothing)\<rparr>) of
        Inr (Number i) \<Rightarrow> Some i
      | _ \<Rightarrow> None)"

text \<open>
  The body of \<open>lookupAttributeInMap\<close> once the slot of the predicate is known.
\<close>

definition lookup_slot :: "Prototype \<Rightarrow> slot \<Rightarrow> string list \<Rightarrow> error + T" where
  "lookup_slot proto attributeMap args =
     (case args of
        [] \<Rightarrow>
          (case arity0 attributeMap of
             None \<Rightarrow> Inl WrongArity
           | Some i \<Rightarrow> if i = 0 then Inl WrongArity else Inr (Number i))
      | [x] \<Rightarrow>
          (case arity1 attributeMap of
             None \<Rightarrow> Inl WrongArity
           | Some m1 \<Rightarrow>
               (case m1 x of
                  None \<Rightarrow> read_inherited proto 1 [x] []
                | Some i \<Rightarrow> own_id 1 i))
      | [x, y] \<Rightarrow>
          (case arity2 attributeMap of
             None \<Rightarrow> Inl WrongArity
           | Some m2 \<Rightarrow>
               (case m2 x of
                  None \<Rightarrow> read_inherited proto 1 [x] [y]
                | Some m1 \<Rightarrow>
                    (case m1 y of
                       None \<Rightarrow> read_inherited proto 2 [y] []
                     | Some i \<Rightarrow> own_id 2 i)))
      | [x, y, z] \<Rightarrow>
          (case arity3 attributeMap of
             None \<Rightarrow> Inl WrongArity
           | Some m3 \<Rightarrow>
               (case m3 x of
                  None \<Rightarrow> read_inherited proto 1 [x] [y, z]
                | Some m2 \<Rightarrow>
                    (case m2 y of
                       None \<Rightarrow> read_inherited proto 2 [y] [z]
                     | Some m1 \<Rightarrow>
                         (case m1 z of
                            None \<Rightarrow> read_inherited proto 3 [z] []
                          | Some i \<Rightarrow> own_id 3 i))))
      | _ \<Rightarrow> Inl InternalArity)"

section \<open>Notions of the specification and example problems\<close>

text \<open>
  The truth of a literal as the specification words it: the literal \<open>0\<close> is true, a
  positive literal is true when its atom is assigned true, a negative literal when its
  atom is assigned false. An atom outside the assignment is assigned nothing, and \<^verbatim>\<open>NaN\<close>
  is the literal of no atom.
\<close>

definition literal_true :: "Assignment \<Rightarrow> InternalProposition \<Rightarrow> bool" where
  "literal_true A literal =
     (case literal of
        NaN \<Rightarrow> False
      | Num l \<Rightarrow>
          l = 0 \<or> (0 < l \<and> nat l < length A \<and> A ! nat l) \<or>
          (l < 0 \<and> nat (- l) < length A \<and> \<not> A ! nat (- l)))"

definition satisfied_count :: "Assignment \<Rightarrow> Clause \<Rightarrow> int" where
  "satisfied_count A L = int (length (filter (literal_true A) L))"

text \<open>The calls that add constraints: all but \<^verbatim>\<open>attribute\<close> and \<^verbatim>\<open>solve\<close>.\<close>

fun is_constraint_call :: "call \<Rightarrow> bool" where
  "is_constraint_call (Attribute name args) = False"
| "is_constraint_call (Solve rnd k) = False"
| "is_constraint_call c = True"

subsection \<open>The prototype chain of ECMA-262\<close>

text \<open>
  The realm of the examples: \<^verbatim>\<open>Object.prototype\<close> as the ECMAScript language specification
  (ECMA-262, 15th edition) defines it, as far as three reads from a plain object reach
  along names that match \<^verbatim>\<open>IDENT_REGEX\<close>. A built-in value is described by what those reads
  use: a function by its \<^verbatim>\<open>name\<close> and its \<^verbatim>\<open>length\<close>, a number and a string by their value.
  \<open>OtherObject\<close> stands for the objects and functions that only the third read reaches.
  The general results of this theory hold for every \<open>Prototype\<close>; this one is used where a
  problem is evaluated.
\<close>

datatype builtin =
    Fn string nat
  | ObjectPrototype
  | NumberValue nat
  | StringValue string
  | OtherObject
  | Undefined
  | Throws

text \<open>The functions of \<^verbatim>\<open>Object.prototype\<close>, of \<^verbatim>\<open>Function.prototype\<close> and of \<^verbatim>\<open>Object\<close>, with their lengths.\<close>

definition Object_prototype_functions :: "(string \<times> nat) list" where
  "Object_prototype_functions =
     [(''hasOwnProperty'', 1), (''isPrototypeOf'', 1), (''propertyIsEnumerable'', 1),
      (''toLocaleString'', 0), (''toString'', 0), (''valueOf'', 0)]"

definition Function_prototype_functions :: "(string \<times> nat) list" where
  "Function_prototype_functions =
     [(''apply'', 2), (''bind'', 1), (''call'', 1), (''toString'', 0)]"

definition Object_functions :: "(string \<times> nat) list" where
  "Object_functions =
     [(''assign'', 2), (''create'', 2), (''defineProperties'', 2), (''defineProperty'', 3),
      (''entries'', 1), (''freeze'', 1), (''fromEntries'', 1),
      (''getOwnPropertyDescriptor'', 2), (''getOwnPropertyDescriptors'', 1),
      (''getOwnPropertyNames'', 1), (''getOwnPropertySymbols'', 1), (''getPrototypeOf'', 1),
      (''groupBy'', 2), (''hasOwn'', 2), (''is'', 2), (''isExtensible'', 1), (''isFrozen'', 1), (''isSealed'', 1),
      (''keys'', 1), (''preventExtensions'', 1), (''seal'', 1), (''setPrototypeOf'', 2),
      (''values'', 1)]"

text \<open>
  The names that a number and a string inherit (from \<^verbatim>\<open>Number.prototype\<close>,
  \<^verbatim>\<open>String.prototype\<close> and \<^verbatim>\<open>Object.prototype\<close>); all of them name functions.
\<close>

definition Number_names :: "string list" where
  "Number_names =
     [''constructor'', ''toExponential'', ''toFixed'', ''toLocaleString'', ''toPrecision'',
      ''toString'', ''valueOf'', ''hasOwnProperty'', ''isPrototypeOf'', ''propertyIsEnumerable'']"

definition String_names :: "string list" where
  "String_names =
     [''at'', ''charAt'', ''charCodeAt'', ''codePointAt'', ''concat'', ''constructor'',
      ''endsWith'', ''includes'', ''indexOf'', ''isWellFormed'', ''lastIndexOf'', ''localeCompare'', ''match'',
      ''matchAll'', ''normalize'', ''padEnd'', ''padStart'', ''repeat'', ''replace'',
      ''replaceAll'', ''search'', ''slice'', ''split'', ''startsWith'', ''substring'',
      ''toLocaleLowerCase'', ''toLocaleUpperCase'', ''toLowerCase'', ''toString'',
      ''toUpperCase'', ''toWellFormed'', ''trim'', ''trimEnd'', ''trimStart'', ''valueOf'',
      ''substr'', ''anchor'', ''big'', ''blink'', ''bold'', ''fixed'', ''fontcolor'',
      ''fontsize'', ''italics'', ''link'', ''small'', ''strike'', ''sub'', ''sup'',
      ''trimLeft'', ''trimRight'',
      ''hasOwnProperty'', ''isPrototypeOf'', ''propertyIsEnumerable'', ''toLocaleString'']"

definition function_of :: "(string \<times> nat) list \<Rightarrow> string \<Rightarrow> builtin" where
  "function_of table k = (case map_of table k of None \<Rightarrow> Undefined | Some n \<Rightarrow> Fn k n)"

text \<open>
  \<open>get v k\<close> is the read \<^verbatim>\<open>v[k]\<close>. A function has its own \<^verbatim>\<open>length\<close> and \<^verbatim>\<open>name\<close>, the
  constructors \<^verbatim>\<open>Object\<close> and \<^verbatim>\<open>Function\<close> have \<^verbatim>\<open>prototype\<close>, \<^verbatim>\<open>Object\<close> has its functions,
  and every function inherits from \<^verbatim>\<open>Function.prototype\<close> (where \<^verbatim>\<open>caller\<close> and \<^verbatim>\<open>arguments\<close>
  are accessors that throw) and then from \<^verbatim>\<open>Object.prototype\<close>. A read of \<^verbatim>\<open>undefined\<close>
  throws.
\<close>

fun get :: "builtin \<Rightarrow> string \<Rightarrow> builtin" where
  "get ObjectPrototype k =
     (if k = ''constructor'' then Fn ''Object'' 1
      else function_of Object_prototype_functions k)"
| "get (Fn name len) k =
     (if k = ''length'' then NumberValue len
      else if k = ''name'' then StringValue name
      else if k = ''prototype'' \<and> name = ''Object'' then ObjectPrototype
      else if k = ''prototype'' \<and> name = ''Function'' then OtherObject
      else if name = ''Object'' \<and> map_of Object_functions k \<noteq> None
        then function_of Object_functions k
      else if k = ''constructor'' then Fn ''Function'' 1
      else if k = ''caller'' \<or> k = ''arguments'' then Throws
      else if map_of Function_prototype_functions k \<noteq> None
        then function_of Function_prototype_functions k
      else function_of Object_prototype_functions k)"
| "get (NumberValue n) k = (if k \<in> set Number_names then OtherObject else Undefined)"
| "get (StringValue s) k =
     (if k = ''length'' then NumberValue (length s)
      else if k \<in> set String_names then OtherObject else Undefined)"
| "get OtherObject k = Undefined"
| "get Undefined k = Throws"
| "get Throws k = Throws"

definition ecma262 :: Prototype where
  "ecma262 names =
     (case fold (\<lambda>k v. get v k) names ObjectPrototype of
        Undefined \<Rightarrow> Nothing
      | Throws \<Rightarrow> Raises
      | NumberValue n \<Rightarrow> Value (Number n)
      | StringValue s \<Rightarrow> if s = [] then Nothing else Value NotNumber
      | _ \<Rightarrow> Value NotNumber)"

subsection \<open>Example problems\<close>

text \<open>
  The problem of the test \<^verbatim>\<open>p <= -q, q <= -p, does not admit {p, q} as a solution\<close>:
  \<^verbatim>\<open>p.attribute('p'); p.attribute('q'); p.rule('q', ['!p']); p.rule('p', ['!q'])\<close>.
\<close>

definition pq_problem :: Problem where
  "pq_problem =
     exec (Rule ''p'' [''!q''])
       (exec (Rule ''q'' [''!p''])
          (exec (Attribute ''q'' [])
             (exec (Attribute ''p'' []) (new_Problem ecma262))))"

definition pq_clauses :: "Constraint list" where
  "pq_clauses =
     [\<lparr>lo = 1, hi = 2, clause = [Num 1, Num 2]\<rparr>, \<lparr>lo = 1, hi = 2, clause = [Num 2, Num 1]\<rparr>,
      \<lparr>lo = 1, hi = 2, clause = [Num (- 1), Num (- 2)]\<rparr>,
      \<lparr>lo = 1, hi = 2, clause = [Num (- 2), Num (- 1)]\<rparr>]"

definition half :: "nat \<Rightarrow> rat" where
  "half = (\<lambda>_. 1 / 2)"

text \<open>The \<open>p\<close>/\<open>q\<close> problem before its rules, and after the first of them.\<close>

definition pq_declared :: Problem where
  "pq_declared = exec (Attribute ''q'' []) (exec (Attribute ''p'' []) (new_Problem ecma262))"

definition pq_first_rule :: Problem where
  "pq_first_rule = exec (Rule ''q'' [''!p'']) pq_declared"

text \<open>
  Two attributes and \<^verbatim>\<open>p.assert('a'); p.assert('a'); p.assert('b')\<close>: under the assignment
  that makes both false, flipping \<open>a\<close> repairs two clauses and flipping \<open>b\<close> one.
\<close>

definition greedy_problem :: Problem where
  "greedy_problem =
     exec (Assert ''b'')
       (exec (Assert ''a'')
          (exec (Assert ''a'')
             (exec (Attribute ''b'' [])
                (exec (Attribute ''a'' []) (new_Problem ecma262)))))"

text \<open>Three attributes \<open>a\<close>, \<open>b\<close>, \<open>c\<close> and no constraint.\<close>

definition abc_problem :: Problem where
  "abc_problem =
     exec (Attribute ''c'' [])
       (exec (Attribute ''b'' [])
          (exec (Attribute ''a'' []) (new_Problem ecma262)))"

text \<open>
  \<^verbatim>\<open>p.implies(['a'], 'b'); p.implies(['b'], 'c'); p.implies(['c'], 'a'); p.all(['a', 'b', 'c'])\<close>
  on the three attributes: satisfied by making all three true.
\<close>

definition cycle_problem :: Problem where
  "cycle_problem =
     exec (All [''a'', ''b'', ''c''])
       (exec (Implies [''c''] ''a'')
          (exec (Implies [''b''] ''c'')
             (exec (Implies [''a''] ''b'') abc_problem)))"

definition quarter :: "nat \<Rightarrow> rat" where
  "quarter = (\<lambda>_. 1 / 4)"

text \<open>
  \<^verbatim>\<open>p.attribute('t', [['x'], ['y'], ['z']]); p.assert('!t constructor defineProperties length')\<close>:
  one atom, \<^verbatim>\<open>t x y z\<close>, and a proposition whose arguments are outside the three domains.
\<close>

definition t_problem :: Problem where
  "t_problem =
     exec (Assert ''!t constructor defineProperties length'')
       (exec (Attribute ''t'' [[''x''], [''y''], [''z'']]) (new_Problem ecma262))"

text \<open>
  \<^verbatim>\<open>p.attribute('c', [[], []]); p.assert('c constructor length')\<close>: a predicate of two
  arguments over empty domains, so no atom at all.
\<close>

definition c_problem :: Problem where
  "c_problem =
     exec (Assert ''c constructor length'')
       (exec (Attribute ''c'' [[], []]) (new_Problem ecma262))"

definition tenth :: "nat \<Rightarrow> rat" where
  "tenth = (\<lambda>_. 1 / 10)"

text \<open>\<^verbatim>\<open>p.attribute('a'); p.attribute('f', [['x']]); p.attribute('p')\<close>, no constraint.\<close>

definition f_problem :: Problem where
  "f_problem =
     exec (Attribute ''p'' [])
       (exec (Attribute ''f'' [[''x'']])
          (exec (Attribute ''a'' []) (new_Problem ecma262)))"

section \<open>Lemmas\<close>

subsection \<open>The fields that the operations touch\<close>

lemma fold_inv:
  assumes "P s" and "\<And>x s. P s \<Longrightarrow> P (f x s)"
  shows "P (fold f xs s)"
  using assms(1)
  by (induction xs arbitrary: s) (auto intro: assms(2))

lemma reset_fields [simp]:
  "fromInternal (reset p) = fromInternal p"
  "toInternal (reset p) = toInternal p"
  "rules (reset p) = rules p"
  "nonRuleConstraints (reset p) = None"
  "constraints (reset p) = (case nonRuleConstraints p of None \<Rightarrow> constraints p | Some n \<Rightarrow> take n (constraints p))"
  by (simp_all add: reset_def split: option.splits)

lemma push_fields [simp]:
  "fromInternal (push cs p) = fromInternal p"
  "toInternal (push cs p) = toInternal p"
  "rules (push cs p) = rules p"
  "nonRuleConstraints (push cs p) = nonRuleConstraints p"
  "constraints (push cs p) = constraints p @ cs"
  by (simp_all add: push_def)

lemma iff_fields [simp]:
  "fromInternal (iff ps c p) = fromInternal p"
  "toInternal (iff ps c p) = toInternal p"
  "rules (iff ps c p) = rules p"
  "nonRuleConstraints (iff ps c p) = nonRuleConstraints p"
  "constraints (iff ps c p) = constraints p @
     map (\<lambda>premise. \<lparr> lo = 1, hi = 2, clause = [premise, neg c] \<rparr>) ps @
     [\<lparr> lo = 1, hi = int (length ps) + 1, clause = map neg ps @ [c] \<rparr>]"
  by (simp_all add: iff_def Let_def)

lemma generate_eq:
  "generate x p = (length (fromInternal p), p\<lparr>fromInternal := fromInternal p @ [x]\<rparr>)"
  by (simp add: generate_def)

lemma lookup_toInternal: "toInternal p = toInternal q \<Longrightarrow> lookup p x = lookup q x"
  by (cases x) (simp_all add: lookup_def)

lemma lookups_toInternal: "toInternal p = toInternal q \<Longrightarrow> lookups p xs = lookups q xs"
  by (induction xs) (simp_all add: lookup_toInternal[of p q] split: sum.splits)

lemma fst_solve_run: "fst (solve_run rnd k p) = complete p"
  by (simp add: solve_run_def Let_def)

lemma fst_solve: "fst (solve rnd k p) = complete p"
  using fst_solve_run[of rnd k p]
  by (auto simp: solve_def split: prod.splits option.splits)

lemma fst_run_Solve: "fst (run (Solve rnd k) p) = complete p"
  using fst_solve[of rnd k p]
  by (auto split: prod.splits sum.splits)

subsection \<open>The keys of \<^verbatim>\<open>rules\<close> stay in order\<close>

lemma key_before_irrefl [simp]: "\<not> key_before k k"
  by (cases k) simp_all

lemma key_before_trans: "key_before a b \<Longrightarrow> key_before b c \<Longrightarrow> key_before a c"
  by (cases a; cases b; cases c) simp_all

lemma key_before_total: "a \<noteq> b \<Longrightarrow> \<not> key_before a b \<Longrightarrow> key_before b a"
  by (cases a; cases b) auto

lemma rules_push_keys: "fst ` set (rules_push h j rs) = insert h (fst ` set rs)"
  by (induction h j rs rule: rules_push.induct) auto

lemma rules_push_sorted:
  "sorted_wrt key_before (map fst rs) \<Longrightarrow> sorted_wrt key_before (map fst (rules_push h j rs))"
proof (induction h j rs rule: rules_push.induct)
  case (1 h j)
  then show ?case by simp
next
  case (2 h j k js rs)
  show ?case
  proof (cases "h = k \<or> key_before h k")
    case True
    with 2 show ?thesis by (auto intro: key_before_trans)
  next
    case False
    then have kh: "key_before k h" by (auto intro: key_before_total)
    moreover have "\<forall>x \<in> fst ` set (rules_push h j rs). key_before k x"
      using 2(2) kh by (auto simp: rules_push_keys)
    ultimately show ?thesis using 2 False by auto
  qed
qed

lemma sorted_wrt_key_distinct: "sorted_wrt key_before xs \<Longrightarrow> distinct xs"
  by (induction xs) auto

lemma quantify_rules [simp]: "rules (fst (quantify mn mx ps p)) = rules p"
  by (simp add: quantify_def split: sum.splits)

lemma all_c_rules [simp]: "rules (fst (all_c ps p)) = rules p"
  by (simp add: all_c_def)

lemma atMost_c_rules [simp]: "rules (fst (atMost_c mx ps p)) = rules p"
  by (simp add: atMost_c_def)

lemma implies_c_rules [simp]: "rules (fst (implies_c ps c p)) = rules p"
  by (simp add: implies_c_def Let_def split: sum.splits)

lemma equal_c_rules [simp]: "rules (fst (equal_c a b p)) = rules p"
  by (simp add: equal_c_def Let_def generate_eq split: sum.splits)

lemma complete_rules [simp]: "rules (complete p) = rules p"
  by (simp add: complete_def split: option.splits)

lemma complete_registry [simp]:
  "fromInternal (complete p) = fromInternal p"
  "toInternal (complete p) = toInternal p"
  by (simp_all add: complete_def split: option.splits)

lemma attribute_rules [simp]: "rules (fst (attribute name args p)) = rules p"
  by (simp add: attribute_def generate_eq split: list.splits prod.splits)

lemma rule_c_rules:
  "rules (fst (rule_c c ps p)) = rules p \<or>
   (\<exists>h j. rules (fst (rule_c c ps p)) = rules_push h j (rules p))"
proof -
  obtain q e where i: "implies_c ps c p = (q, e)" by (cases "implies_c ps c p")
  have q: "rules q = rules p" using implies_c_rules[of ps c p] i by simp
  show ?thesis
    unfolding rule_c_def Let_def generate_eq i
    using q by (auto split: sum.splits option.splits)
qed

lemma exec_rules_sorted:
  assumes "sorted_wrt key_before (map fst (rules p))"
  shows "sorted_wrt key_before (map fst (rules (exec c p)))"
proof (cases c)
  case (Rule c' ps)
  with rule_c_rules[of c' ps p] assms show ?thesis
    by (auto simp: exec_def intro: rules_push_sorted)
next
  case (Solve rnd k)
  with assms show ?thesis
    unfolding exec_def by (simp only: fst_run_Solve complete_rules)
qed (use assms in \<open>simp_all add: exec_def exactly_def atLeast_c_def unique_def inconsistent_def assert_c_def\<close>)

lemma reachable_rules_sorted: "reachable p \<Longrightarrow> sorted_wrt key_before (map fst (rules p))"
  by (induction rule: reachable.induct) (simp_all add: new_Problem_def exec_rules_sorted)

lemma rules_distinct: "reachable p \<Longrightarrow> distinct (map fst (rules p))"
  by (rule sorted_wrt_key_distinct) (rule reachable_rules_sorted)

subsection \<open>The scores and the search loop\<close>


lemma length_adjust [simp]: "length (adjust d want a cl sm) = length sm"
  unfolding adjust_def
  by (rule fold_inv[where P = "\<lambda>s. length s = length sm"]) (auto split: number.splits)

lemma score_constraint_fst:
  "fst (score_constraint a c acc) = fst acc + (if clause_sat a c then 1 else 0)"
  by (simp add: score_constraint_def clause_sat_def Let_def)

lemma score_constraint_length:
  "length (snd (score_constraint a c acc)) = length (snd acc)"
  by (simp add: score_constraint_def Let_def)

lemma fold_score_fst:
  "fst (fold (score_constraint a) cs acc) = fst acc + length (filter (clause_sat a) cs)"
  by (induction cs arbitrary: acc) (simp_all add: score_constraint_fst)

lemma fold_score_length:
  "length (snd (fold (score_constraint a) cs acc)) = length (snd acc)"
  by (induction cs arbitrary: acc) (simp_all add: score_constraint_length)

lemma scores_fst: "fst (scores cs a) = length (filter (clause_sat a) cs)"
  by (simp add: scores_def fold_score_fst)

lemma scores_length: "length (snd (scores cs a)) = length a"
  by (simp add: scores_def fold_score_length)

lemma filter_all: "length (filter P xs) = length xs \<longleftrightarrow> (\<forall>x \<in> set xs. P x)"
  by (metis filter_id_conv length_filter_less less_irrefl_nat)

lemma satisfies_None:
  "fst (satisfies cs a rnd k) = None \<longleftrightarrow> (\<forall>c \<in> set cs. clause_sat a c)"
proof -
  obtain n sm where s: "scores cs a = (n, sm)" by (cases "scores cs a")
  then have n: "n = length (filter (clause_sat a) cs)" using scores_fst[of cs a] by simp
  show ?thesis
    using filter_all[of "clause_sat a" cs]
    by (auto simp: satisfies_def s n Let_def)
qed

lemma best_loop_set:
  "x \<in> set (best_loop ss i best) \<Longrightarrow> x \<in> set best \<or> (i \<le> x \<and> x < i + length ss)"
proof (induction ss arbitrary: i best)
  case Nil
  then show ?case by simp
next
  case (Cons s ss)
  from Cons.prems have "x \<in> set (best_loop ss (Suc i) (if s > 0 then [i] else if s = 0 then best @ [i] else best))"
    by (simp add: Let_def)
  from Cons.IH[OF this] show ?case by (auto split: if_splits)
qed

lemma best_candidates_range:
  "x \<in> set (best_candidates sm) \<Longrightarrow> 1 \<le> x \<and> x < length sm"
  unfolding best_candidates_def
  by (drule best_loop_set) auto

lemma index_opt_Some: "index_opt xs i = Some x \<Longrightarrow> x \<in> set xs"
  by (auto simp: index_opt_def split: if_splits)

lemma satisfies_suggestion:
  assumes "fst (satisfies cs a rnd k) = Some (n, Some i)"
  shows "1 \<le> i \<and> i < length a"
proof -
  obtain m sm where s: "scores cs a = (m, sm)" by (cases "scores cs a")
  then have l: "length sm = length a" using scores_length[of cs a] by simp
  from assms have "i \<in> set (best_candidates sm)"
    by (auto simp: satisfies_def s Let_def split: if_splits dest: index_opt_Some)
  from best_candidates_range[OF this] l show ?thesis by simp
qed

lemma satisfies_Some_nonempty:
  "fst (satisfies cs a rnd k) = Some r \<Longrightarrow> cs \<noteq> []"
  using satisfies_None[of cs a rnd k] by auto

lemma flip_in_range:
  assumes "1 \<le> i" and "nat i < length a"
  shows "length (flip a i) = length a \<and> flip a i ! 0 = a ! 0"
  using assms by (auto simp: flip_def)

lemma random_guess_range:
  assumes "0 \<le> r" and "r < 1" and "2 \<le> n"
  shows "1 \<le> 1 + \<lfloor>r * (of_nat n - 1)\<rfloor> \<and> nat (1 + \<lfloor>r * (of_nat n - 1)\<rfloor>) < (n::nat)"
proof -
  have pos: "(0::rat) < of_nat n - 1" using assms(3) by simp
  have "0 \<le> r * (of_nat n - 1)" using assms(1) pos by simp
  then have lo: "0 \<le> \<lfloor>r * (of_nat n - 1)\<rfloor>" by simp
  have "r * (of_nat n - 1) < 1 * (of_nat n - 1)" using assms(2) pos by (intro mult_strict_right_mono) auto
  then have "r * (of_nat n - 1) < of_int (int n - 1)" by simp
  then have "\<lfloor>r * (of_nat n - 1)\<rfloor> < int n - 1" by (simp only: floor_less_iff)
  with lo show ?thesis by linarith
qed

lemma iterate_fields [simp]:
  "iteration (iterate cs rnd w r s) = iteration s + 1"
  "failsafe (iterate cs rnd w r s) = failsafe s - 1"
  by (simp_all add: iterate_def Let_def)

lemma iterate_inv:
  assumes rnd: "random_ok rnd" and two: "cs \<noteq> [] \<longrightarrow> 2 \<le> N"
    and inv: "search_inv cs rnd N s" and r: "result s = Some r"
  shows "search_inv cs rnd N (iterate cs rnd w r s)"
proof -
  let ?a = "assignment s"
  from inv have len: "length ?a = N" and a0: "?a ! 0"
    and res: "\<exists>k. result s = fst (satisfies cs ?a rnd k)"
    by (auto simp: search_inv_def)
  from res r obtain k where k: "fst (satisfies cs ?a rnd k) = Some r" by auto
  from satisfies_Some_nonempty[OF k] two have N: "2 \<le> N" by simp
  have greedy: "length (flip_suggestion ?a (snd r)) = N \<and> flip_suggestion ?a (snd r) ! 0"
  proof (cases "snd r")
    case None
    then show ?thesis using len a0 by (simp add: flip_suggestion_def)
  next
    case (Some i)
    then have "fst (satisfies cs ?a rnd k) = Some (fst r, Some i)" using k by (cases r) simp
    from satisfies_suggestion[OF this] have "1 \<le> int i" "nat (int i) < length ?a" by auto
    from flip_in_range[OF this] show ?thesis using Some len a0 by (simp add: flip_suggestion_def)
  qed
  have random: "length (flip ?a (1 + \<lfloor>rnd j * (of_nat (length ?a) - 1)\<rfloor>)) = N \<and>
                flip ?a (1 + \<lfloor>rnd j * (of_nat (length ?a) - 1)\<rfloor>) ! 0" for j
  proof -
    have "0 \<le> rnd j" "rnd j < 1" using rnd by (auto simp: random_ok_def)
    from random_guess_range[OF this, of "length ?a"] N len
    have "1 \<le> 1 + \<lfloor>rnd j * (of_nat (length ?a) - 1)\<rfloor>"
         "nat (1 + \<lfloor>rnd j * (of_nat (length ?a) - 1)\<rfloor>) < length ?a" by auto
    from flip_in_range[OF this] show ?thesis using len a0 by simp
  qed
  show ?thesis
    unfolding search_inv_def iterate_def Let_def
    using greedy random by auto
qed

lemma search_inv_result:
  "random_ok rnd \<Longrightarrow> (cs \<noteq> [] \<longrightarrow> 2 \<le> N) \<Longrightarrow> search_inv cs rnd N s \<Longrightarrow>
     search cs rnd w s = (s', err) \<Longrightarrow>
     search_inv cs rnd N s' \<and> (err = None \<longrightarrow> result s' = None)"
proof (induction cs rnd w s rule: search.induct)
  case (1 cs rnd w s)
  note rnd = 1(2) and two = 1(3) and inv = 1(4) and run = 1(5)
  show ?case
  proof (cases "result s")
    case None
    with inv run show ?thesis by (simp add: search.simps)
  next
    case (Some r)
    let ?s1 = "iterate cs rnd w r s"
    have inv1: "search_inv cs rnd N ?s1" by (rule iterate_inv[OF rnd two inv Some])
    show ?thesis
    proof (cases "failsafe ?s1 = 0")
      case True
      with run Some have "s' = ?s1" "err = Some Timeout" by (simp_all add: search.simps[of cs rnd w s])
      with inv1 show ?thesis by simp
    next
      case False
      with run Some have "search cs rnd w ?s1 = (s', err)" by (simp add: search.simps[of cs rnd w s])
      from 1(1)[OF Some refl False rnd two inv1 this] show ?thesis .
    qed
  qed
qed

lemma search_count:
  "0 < failsafe s \<Longrightarrow> search cs rnd w s = (s', err) \<Longrightarrow>
     iteration s' + failsafe s' = iteration s + failsafe s \<and>
     ((err = None \<and> 0 < failsafe s') \<or> (err = Some Timeout \<and> failsafe s' = 0))"
proof (induction cs rnd w s rule: search.induct)
  case (1 cs rnd w s)
  show ?case
  proof (cases "result s")
    case None
    with 1(2,3) show ?thesis by (simp add: search.simps)
  next
    case (Some r)
    let ?s1 = "iterate cs rnd w r s"
    show ?thesis
    proof (cases "failsafe ?s1 = 0")
      case True
      with 1(3) Some have "s' = ?s1" "err = Some Timeout" by (simp_all add: search.simps[of cs rnd w s])
      with True 1(2) show ?thesis by simp
    next
      case False
      with 1(3) Some have s: "search cs rnd w ?s1 = (s', err)" by (simp add: search.simps[of cs rnd w s])
      from False have "0 < failsafe ?s1" by simp
      from 1(1)[OF Some refl False this s] 1(2) show ?thesis by simp
    qed
  qed
qed

lemma initial_assignment_props:
  "length (initial_assignment rnd k n) = max 1 n \<and> initial_assignment rnd k n ! 0"
  by (cases n) (auto simp: initial_assignment_def upt_conv_Cons simp del: upt_Suc)

lemma initial_state_inv:
  assumes "fromInternal p \<noteq> []"
  shows "search_inv (constraints p) rnd (length (fromInternal p)) (initial_state rnd k p)"
  using assms initial_assignment_props[of rnd k "length (fromInternal p)"]
  by (cases "fromInternal p") (auto simp: search_inv_def initial_state_def Let_def max_def)

lemma initial_state_fields [simp]:
  "failsafe (initial_state rnd k p) = 50000"
  "iteration (initial_state rnd k p) = 0"
  by (simp_all add: initial_state_def Let_def)


lemma solve_run_inv:
  assumes two: "2 \<le> length (fromInternal p)" and rnd: "random_ok rnd"
    and run: "solve_run rnd k p = (p', s, err)"
  shows "p' = complete p \<and> search_inv (constraints p') rnd (length (fromInternal p')) s \<and>
         (err = None \<longrightarrow> result s = None)"
proof -
  have p': "p' = complete p" using run by (simp add: solve_run_def Let_def)
  have fi: "fromInternal p' = fromInternal p" by (simp add: p')
  have ne: "fromInternal p' \<noteq> []" using two fi by auto
  have two': "constraints p' \<noteq> [] \<longrightarrow> 2 \<le> length (fromInternal p')" using two fi by simp
  from run have s: "search (constraints p') rnd (length (window (initial_state rnd k p'))) (initial_state rnd k p') = (s, err)"
    by (simp add: solve_run_def Let_def p')
  from search_inv_result[OF rnd two' initial_state_inv[OF ne] s] p' show ?thesis by simp
qed


lemma solve_run_count:
  assumes run: "solve_run rnd k p = (p', s, err)"
  shows "(err = None \<and> iteration s < 50000) \<or> (err = Some Timeout \<and> iteration s = 50000)"
proof -
  from run have s: "search (constraints (complete p)) rnd (length (window (initial_state rnd k (complete p))))
      (initial_state rnd k (complete p)) = (s, err)"
    by (auto simp: solve_run_def Let_def)
  from search_count[OF _ s] show ?thesis by auto
qed

subsection \<open>The registry only grows\<close>

lemma slot_ids_arity0: "arity0 sl = Some i \<Longrightarrow> i \<in> slot_ids sl"
  by (simp add: slot_ids_def)

lemma slot_ids_arity1: "arity1 sl = Some m1 \<Longrightarrow> m1 x = Some i \<Longrightarrow> i \<in> slot_ids sl"
  by (auto simp: slot_ids_def ran_def)

lemma slot_ids_arity2:
  "arity2 sl = Some m2 \<Longrightarrow> m2 x = Some m1 \<Longrightarrow> m1 y = Some i \<Longrightarrow> i \<in> slot_ids sl"
  by (auto simp: slot_ids_def ran_def)

lemma slot_ids_arity3:
  "arity3 sl = Some m3 \<Longrightarrow> m3 x = Some m2 \<Longrightarrow> m2 y = Some m1 \<Longrightarrow> m1 z = Some i
     \<Longrightarrow> i \<in> slot_ids sl"
  by (auto simp: slot_ids_def ran_def)

lemma read_inherited_Nothing [simp]:
  "read_inherited (\<lambda>names. Nothing) position names rest = Inl (InvalidArgument position)"
  by (cases rest) simp_all

lemma lookupAttributeInMap_slot:
  "lookupAttributeInMap attr m =
     (if \<not> IDENT_REGEX (hd (split_space attr)) then Inl MalformedPredicate
      else if \<not> list_all IDENT_REGEX (tl (split_space attr)) then Inl MalformedArgument
      else (case own m (hd (split_space attr)) of
              None \<Rightarrow>
                if falsy (prototype m [hd (split_space attr)]) then Inl NoPredicateDeclared
                else Inl TypeError
            | Some sl \<Rightarrow>
                if slot_undefined sl then Inl NoPredicateDeclared
                else lookup_slot (prototype m) sl (tl (split_space attr))))"
  unfolding lookupAttributeInMap_def lookup_slot_def Let_def by (rule refl)

lemma lookup_slot_own:
  assumes "lookup_slot (\<lambda>names. Nothing) sl args = Inr v"
  shows "lookup_slot proto sl args = Inr v \<and> (\<exists>i. v = Number i \<and> i \<in> slot_ids sl \<and> i \<noteq> 0)"
proof (cases args)
  case Nil
  with assms show ?thesis
    by (auto simp: lookup_slot_def split: option.splits if_splits intro: slot_ids_arity0)
next
  case (Cons x xs)
  note c1 = this
  show ?thesis
  proof (cases xs)
    case Nil
    with assms c1 show ?thesis
      by (auto simp: lookup_slot_def own_id_def split: option.splits if_splits intro: slot_ids_arity1)
  next
    case (Cons y ys)
    note c2 = this
    show ?thesis
    proof (cases ys)
      case Nil
      with assms c1 c2 show ?thesis
        by (auto simp: lookup_slot_def own_id_def split: option.splits if_splits intro: slot_ids_arity2)
    next
      case (Cons z zs)
      with assms c1 c2 show ?thesis
        by (cases zs)
           (auto simp: lookup_slot_def own_id_def split: option.splits if_splits intro: slot_ids_arity3)
    qed
  qed
qed

lemma declared_id_slot:
  assumes "declared_id attr m = Some i"
  shows "\<exists>sl. own m (hd (split_space attr)) = Some sl \<and> i \<in> slot_ids sl \<and> i \<noteq> 0 \<and>
              lookupAttributeInMap attr m = Inr (Number i)"
proof -
  let ?m0 = "m\<lparr>prototype := (\<lambda>names. Nothing)\<rparr>"
  from assms have l: "lookupAttributeInMap attr ?m0 = Inr (Number i)"
    by (auto simp: declared_id_def split: sum.splits T.splits)
  then obtain sl where sl: "own m (hd (split_space attr)) = Some sl"
    by (cases "own m (hd (split_space attr))")
       (auto simp: lookupAttributeInMap_slot falsy_def split: if_splits)
  from l sl have ok: "IDENT_REGEX (hd (split_space attr))" "list_all IDENT_REGEX (tl (split_space attr))"
    "\<not> slot_undefined sl"
    and b: "lookup_slot (\<lambda>names. Nothing) sl (tl (split_space attr)) = Inr (Number i)"
    by (auto simp: lookupAttributeInMap_slot split: if_splits)
  from lookup_slot_own[OF b, of "prototype m"] sl ok show ?thesis
    by (auto simp: lookupAttributeInMap_slot)
qed

lemma declared_id_cong:
  "own m (hd (split_space attr)) = own m' (hd (split_space attr)) \<Longrightarrow>
     declared_id attr m = declared_id attr m'"
  unfolding declared_id_def lookupAttributeInMap_slot by (simp add: falsy_def split: option.splits)

lemma ran_upd_subset: "ran (m(x \<mapsto> v)) \<subseteq> insert v (ran m)"
  by (auto simp: ran_def split: if_splits)

lemma ran_updD: "v' \<in> ran (m(x \<mapsto> v)) \<Longrightarrow> v' = v \<or> v' \<in> ran m"
  using ran_upd_subset[of m x v] by auto

lemma declare1_ok:
  assumes "declare1 label xs fi = (fi1, m1)"
  shows "(\<exists>ext. fi1 = fi @ ext) \<and> (\<forall>i \<in> ran m1. length fi \<le> i \<and> i < length fi1)"
proof -
  let ?P = "\<lambda>s. (\<exists>ext. fst s = fi @ ext) \<and> (\<forall>i \<in> ran (snd s). length fi \<le> i \<and> i < length (fst s))"
  have "?P (declare1 label xs fi)"
    unfolding declare1_def
  proof (rule fold_inv)
    show "?P (fi, Map.empty)" by simp
  next
    fix x and s :: "Attribute list \<times> (string \<rightharpoonup> InternalAttribute)"
    assume P: "?P s"
    obtain fi' m where s: "s = (fi', m)" by (cases s)
    show "?P ((\<lambda>(fi, m). (fi @ [label @ '' '' @ x], m(x \<mapsto> length fi))) s)"
      using P unfolding s by (auto dest!: ran_updD simp del: fun_upd_apply)
  qed
  with assms show ?thesis by simp
qed

lemma declare2_ok:
  assumes "declare2 label xs ys fi = (fi1, m1)"
  shows "(\<exists>ext. fi1 = fi @ ext) \<and> (\<forall>mx \<in> ran m1. \<forall>i \<in> ran mx. length fi \<le> i \<and> i < length fi1)"
proof -
  let ?P = "\<lambda>s. (\<exists>ext. fst s = fi @ ext) \<and> (\<forall>mx \<in> ran (snd s). \<forall>i \<in> ran mx. length fi \<le> i \<and> i < length (fst s))"
  have "?P (declare2 label xs ys fi)"
    unfolding declare2_def
  proof (rule fold_inv)
    show "?P (fi, Map.empty)" by simp
  next
    fix x and s :: "Attribute list \<times> (string \<rightharpoonup> (string \<rightharpoonup> InternalAttribute))"
    assume P: "?P s"
    obtain fi' m where s: "s = (fi', m)" by (cases s)
    obtain fi'' mx where d: "declare1 (label @ '' '' @ x) ys fi' = (fi'', mx)"
      by (cases "declare1 (label @ '' '' @ x) ys fi'")
    from declare1_ok[OF d] obtain ext where ext: "fi'' = fi' @ ext"
      and mx: "\<forall>i \<in> ran mx. length fi' \<le> i \<and> i < length fi''" by auto
    have eq: "(\<lambda>(fi, m). (case declare1 (label @ '' '' @ x) ys fi of
                            (fi', mx) \<Rightarrow> (fi', m(x \<mapsto> mx)))) s = (fi'', m(x \<mapsto> mx))"
      using d by (simp add: s)
    have PP: "?P (fi'', m(x \<mapsto> mx))"
      using P mx unfolding s ext by (auto dest!: ran_updD simp del: fun_upd_apply; fastforce)
    show "?P ((\<lambda>(fi, m). (case declare1 (label @ '' '' @ x) ys fi of
                            (fi', mx) \<Rightarrow> (fi', m(x \<mapsto> mx)))) s)"
      unfolding eq by (rule PP)
  qed
  with assms show ?thesis by simp
qed

lemma declare3_ok:
  assumes "declare3 label xs ys zs fi = (fi1, m1)"
  shows "(\<exists>ext. fi1 = fi @ ext) \<and> (\<forall>my \<in> ran m1. \<forall>mx \<in> ran my. \<forall>i \<in> ran mx. length fi \<le> i \<and> i < length fi1)"
proof -
  let ?P = "\<lambda>s. (\<exists>ext. fst s = fi @ ext) \<and>
                 (\<forall>my \<in> ran (snd s). \<forall>mx \<in> ran my. \<forall>i \<in> ran mx. length fi \<le> i \<and> i < length (fst s))"
  have "?P (declare3 label xs ys zs fi)"
    unfolding declare3_def
  proof (rule fold_inv)
    show "?P (fi, Map.empty)" by simp
  next
    fix x and s :: "Attribute list \<times> (string \<rightharpoonup> (string \<rightharpoonup> (string \<rightharpoonup> InternalAttribute)))"
    assume P: "?P s"
    obtain fi' m where s: "s = (fi', m)" by (cases s)
    obtain fi'' my where d: "declare2 (label @ '' '' @ x) ys zs fi' = (fi'', my)"
      by (cases "declare2 (label @ '' '' @ x) ys zs fi'")
    from declare2_ok[OF d] obtain ext where ext: "fi'' = fi' @ ext"
      and my: "\<forall>mx \<in> ran my. \<forall>i \<in> ran mx. length fi' \<le> i \<and> i < length fi''" by auto
    have eq: "(\<lambda>(fi, m). (case declare2 (label @ '' '' @ x) ys zs fi of
                            (fi', mx) \<Rightarrow> (fi', m(x \<mapsto> mx)))) s = (fi'', m(x \<mapsto> my))"
      using d by (simp add: s)
    have PP: "?P (fi'', m(x \<mapsto> my))"
      using P my unfolding s ext by (auto dest!: ran_updD simp del: fun_upd_apply; fastforce)
    show "?P ((\<lambda>(fi, m). (case declare2 (label @ '' '' @ x) ys zs fi of
                            (fi', mx) \<Rightarrow> (fi', m(x \<mapsto> mx)))) s)"
      unfolding eq by (rule PP)
  qed
  with assms show ?thesis by simp
qed


lemma registry_ok_new: "registry_ok (new_Problem proto)"
  by (simp add: registry_ok_def new_Problem_def)

lemma extends_refl: "extends p p"
  by (simp add: extends_def)

lemma extends_trans:
  assumes "extends p q" and "extends q r"
  shows "extends p r"
proof -
  from assms obtain e1 e2 where e: "fromInternal q = fromInternal p @ e1" "fromInternal r = fromInternal q @ e2"
    by (auto simp: extends_def)
  have 1: "\<exists>ext. fromInternal r = fromInternal p @ ext" using e by simp
  have 0: "prototype (toInternal r) = prototype (toInternal p)"
    using assms by (simp add: extends_def)
  have 2: "\<forall>name sl. own (toInternal p) name = Some sl \<longrightarrow> own (toInternal r) name = Some sl"
    using assms by (auto simp: extends_def)
  have 3: "\<forall>name sl. own (toInternal r) name = Some sl \<longrightarrow>
          own (toInternal p) name = Some sl \<or>
          (own (toInternal p) name = None \<and> (\<forall>i \<in> slot_ids sl. length (fromInternal p) \<le> i))"
  proof (intro allI impI)
    fix name sl assume r: "own (toInternal r) name = Some sl"
    from assms(2) r have "own (toInternal q) name = Some sl \<or>
          (own (toInternal q) name = None \<and> (\<forall>i \<in> slot_ids sl. length (fromInternal q) \<le> i))"
      by (simp add: extends_def)
    then show "own (toInternal p) name = Some sl \<or>
          (own (toInternal p) name = None \<and> (\<forall>i \<in> slot_ids sl. length (fromInternal p) \<le> i))"
    proof
      assume "own (toInternal q) name = Some sl"
      with assms(1) show ?thesis by (simp add: extends_def)
    next
      assume q: "own (toInternal q) name = None \<and> (\<forall>i \<in> slot_ids sl. length (fromInternal q) \<le> i)"
      then have "own (toInternal p) name = None"
        using assms(1) by (cases "own (toInternal p) name") (auto simp: extends_def)
      moreover have "\<forall>i \<in> slot_ids sl. length (fromInternal p) \<le> i" using q e by auto
      ultimately show ?thesis by simp
    qed
  qed
  from 0 1 2 3 show ?thesis unfolding extends_def by blast
qed

lemma extends_same:
  "toInternal q = toInternal p \<Longrightarrow> fromInternal q = fromInternal p @ ext \<Longrightarrow> extends p q"
  by (simp add: extends_def)

lemma registry_ok_same:
  "registry_ok p \<Longrightarrow> toInternal q = toInternal p \<Longrightarrow> fromInternal q = fromInternal p @ ext
     \<Longrightarrow> registry_ok q"
  by (fastforce simp: registry_ok_def)

lemma quantify_registry [simp]:
  "fromInternal (fst (quantify mn mx ps p)) = fromInternal p"
  "toInternal (fst (quantify mn mx ps p)) = toInternal p"
  by (auto simp: quantify_def split: sum.splits)

lemma implies_c_registry [simp]:
  "fromInternal (fst (implies_c ps c p)) = fromInternal p"
  "toInternal (fst (implies_c ps c p)) = toInternal p"
  by (auto simp: implies_c_def Let_def split: sum.splits)

lemma all_c_registry [simp]:
  "fromInternal (fst (all_c ps p)) = fromInternal p"
  "toInternal (fst (all_c ps p)) = toInternal p"
  by (auto simp: all_c_def)

lemma atMost_c_registry [simp]:
  "fromInternal (fst (atMost_c n ps p)) = fromInternal p"
  "toInternal (fst (atMost_c n ps p)) = toInternal p"
  by (auto simp: atMost_c_def)

lemma equal_c_registry:
  "toInternal (fst (equal_c a b p)) = toInternal p \<and>
   (\<exists>ext. fromInternal (fst (equal_c a b p)) = fromInternal p @ ext)"
  unfolding equal_c_def Let_def generate_eq
  by (simp split: sum.splits)

lemma rule_c_registry:
  "toInternal (fst (rule_c c ps p)) = toInternal p \<and>
   (\<exists>ext. fromInternal (fst (rule_c c ps p)) = fromInternal p @ ext)"
proof (cases "implies_c ps c p")
  case (Pair p1 err)
  then have "fromInternal p1 = fromInternal p" "toInternal p1 = toInternal p"
    using implies_c_registry[of ps c p] by simp_all
  then show ?thesis
    unfolding rule_c_def Let_def generate_eq Pair
    by (simp split: sum.splits option.splits)
qed

text \<open>
  A declaration that goes through adds one slot under a name that had none; its ids are
  the ids minted by the call.
\<close>

lemma attribute_declares:
  assumes ok: "registry_ok p"
  shows "fst (attribute name args p) = p \<or>
         (\<exists>ext sl. fst (attribute name args p) =
              p\<lparr>fromInternal := fromInternal p @ ext, toInternal := set_own name sl (toInternal p)\<rparr> \<and>
            own (toInternal p) name = None \<and> \<not> slot_undefined sl \<and>
            (\<forall>i \<in> slot_ids sl. length (fromInternal p) \<le> i \<and> i < length (fromInternal p @ ext)))"
proof -
  have fresh: "own (toInternal p) name = None"
    if "\<not> (case own (toInternal p) name of None \<Rightarrow> False | Some s \<Rightarrow> \<not> slot_undefined s)"
    using that ok by (cases "own (toInternal p) name") (auto simp: registry_ok_def)
  let ?D = "\<lambda>fi sl. \<exists>ext sl'. p\<lparr>fromInternal := fi, toInternal := set_own name sl (toInternal p)\<rparr> =
              p\<lparr>fromInternal := fromInternal p @ ext, toInternal := set_own name sl' (toInternal p)\<rparr> \<and>
            \<not> slot_undefined sl' \<and>
            (\<forall>i \<in> slot_ids sl'. length (fromInternal p) \<le> i \<and> i < length (fromInternal p @ ext))"
  have A0: "?D (fromInternal p @ [name]) (empty_slot\<lparr>arity0 := Some (length (fromInternal p))\<rparr>)"
    by (rule exI[of _ "[name]"], rule exI[of _ "empty_slot\<lparr>arity0 := Some (length (fromInternal p))\<rparr>"])
       (simp add: slot_ids_def empty_slot_def slot_undefined_def)
  have A1: "?D fi (empty_slot\<lparr>arity1 := Some m\<rparr>)"
    if "declare1 name d1 (fromInternal p) = (fi, m)" for d1 fi m
  proof -
    from declare1_ok[OF that] obtain ext where ext: "fi = fromInternal p @ ext"
      and ok: "\<forall>i \<in> ran m. length (fromInternal p) \<le> i \<and> i < length fi" by auto
    show ?thesis
      by (rule exI[of _ ext], rule exI[of _ "empty_slot\<lparr>arity1 := Some m\<rparr>"])
         (use ok in \<open>simp add: slot_ids_def empty_slot_def slot_undefined_def ext\<close>)
  qed
  have A2: "?D fi (empty_slot\<lparr>arity2 := Some m\<rparr>)"
    if "declare2 name d1 d2 (fromInternal p) = (fi, m)" for d1 d2 fi m
  proof -
    from declare2_ok[OF that] obtain ext where ext: "fi = fromInternal p @ ext"
      and ok: "\<forall>mx \<in> ran m. \<forall>i \<in> ran mx. length (fromInternal p) \<le> i \<and> i < length fi" by auto
    show ?thesis
      by (rule exI[of _ ext], rule exI[of _ "empty_slot\<lparr>arity2 := Some m\<rparr>"])
         (use ok in \<open>simp add: slot_ids_def empty_slot_def slot_undefined_def ext\<close>)
  qed
  have A3: "?D fi (empty_slot\<lparr>arity3 := Some m\<rparr>)"
    if "declare3 name d1 d2 d3 (fromInternal p) = (fi, m)" for d1 d2 d3 fi m
  proof -
    from declare3_ok[OF that] obtain ext where ext: "fi = fromInternal p @ ext"
      and ok: "\<forall>my \<in> ran m. \<forall>mx \<in> ran my. \<forall>i \<in> ran mx. length (fromInternal p) \<le> i \<and> i < length fi" by auto
    show ?thesis
      by (rule exI[of _ ext], rule exI[of _ "empty_slot\<lparr>arity3 := Some m\<rparr>"])
         (use ok in \<open>simp add: slot_ids_def empty_slot_def slot_undefined_def ext\<close>)
  qed
  show ?thesis
    unfolding attribute_def generate_eq
    using fresh A0 A1 A2 A3
    by (auto split: list.splits prod.splits)
qed

lemma registry_attribute:
  assumes ok: "registry_ok p"
  shows "registry_ok (fst (attribute name args p)) \<and> extends p (fst (attribute name args p))"
  using attribute_declares[OF ok, of name args]
proof
  assume "fst (attribute name args p) = p"
  with ok show ?thesis by (simp add: extends_refl)
next
  assume "\<exists>ext sl. fst (attribute name args p) =
              p\<lparr>fromInternal := fromInternal p @ ext, toInternal := set_own name sl (toInternal p)\<rparr> \<and>
            own (toInternal p) name = None \<and> \<not> slot_undefined sl \<and>
            (\<forall>i \<in> slot_ids sl. length (fromInternal p) \<le> i \<and> i < length (fromInternal p @ ext))"
  then obtain ext sl where q: "fst (attribute name args p) =
              p\<lparr>fromInternal := fromInternal p @ ext, toInternal := set_own name sl (toInternal p)\<rparr>"
    and fresh: "own (toInternal p) name = None" and nu: "\<not> slot_undefined sl"
    and ids: "\<forall>i \<in> slot_ids sl. length (fromInternal p) \<le> i \<and> i < length (fromInternal p @ ext)"
    by blast
  have 1: "registry_ok (fst (attribute name args p))"
    unfolding q using ok nu ids by (fastforce simp: registry_ok_def set_own_def)
  have 2: "extends p (fst (attribute name args p))"
    unfolding q using fresh ids by (auto simp: extends_def set_own_def)
  from 1 2 show ?thesis ..
qed

lemma registry_exec:
  assumes ok: "registry_ok p"
  shows "registry_ok (exec c p) \<and> extends p (exec c p)"
proof (cases c)
  case (Attribute name args)
  then show ?thesis using registry_attribute[OF ok, of name args] by (simp add: exec_def)
next
  case (Equal a b)
  then show ?thesis
    using equal_c_registry[of a b p] ok
    by (auto simp: exec_def intro: extends_same registry_ok_same)
next
  case (Rule c' ps)
  then show ?thesis
    using rule_c_registry[of c' ps p] ok
    by (auto simp: exec_def intro: extends_same registry_ok_same)
next
  case (Solve rnd k)
  then show ?thesis
    using fst_run_Solve[of rnd k p] ok
    by (simp add: exec_def extends_same[where ext = "[]"] registry_ok_same[where ext = "[]"])
qed (use ok in \<open>simp_all add: exec_def exactly_def atLeast_c_def unique_def inconsistent_def
        assert_c_def extends_same[where ext = "[]"] registry_ok_same[where ext = "[]"]\<close>)

lemma reachable_registry_ok: "reachable p \<Longrightarrow> registry_ok p"
  by (induction rule: reachable.induct) (auto intro: registry_ok_new dest: registry_exec)

lemma extends_fold: "registry_ok p \<Longrightarrow> registry_ok (fold exec cs p) \<and> extends p (fold exec cs p)"
proof (induction cs arbitrary: p)
  case Nil
  then show ?case by (simp add: extends_refl)
next
  case (Cons c cs)
  from registry_exec[OF Cons.prems, of c] have 1: "registry_ok (exec c p)" and 2: "extends p (exec c p)"
    by simp_all
  from Cons.IH[OF 1] 2 show ?case by (auto intro: extends_trans)
qed

subsection \<open>Evaluating the solver on the \<open>p\<close>/\<open>q\<close> problem\<close>

lemmas satisfies_defs = satisfies_def scores_def score_constraint_def
  numLiteralsInClauseSatisfied_def adjust_def lookup_literal_def truthy_at_def
  best_candidates_def index_opt_def Let_def

lemma floor_rat_numeral [simp]:
  "\<lfloor>(numeral a :: rat) / numeral b\<rfloor> = numeral a div numeral b"
  using floor_divide_of_int_eq[of "numeral a" "numeral b", where ?'a = rat] by simp

lemma ceiling_rat_numeral [simp]:
  "\<lceil>(numeral a :: rat) / numeral b\<rceil> = - (- numeral a div numeral b)"
  unfolding ceiling_def
  using floor_divide_of_int_eq[of "- numeral a" "numeral b", where ?'a = rat] by simp

lemma floor_rat_one_numeral [simp]: "\<lfloor>(1 :: rat) / numeral b\<rfloor> = 1 div numeral b"
  using floor_divide_of_int_eq[of 1 "numeral b", where ?'a = rat] by simp

lemma random_ok_half: "random_ok half"
  by (simp add: random_ok_def half_def)

lemma reachable_pq: "reachable pq_problem"
  unfolding pq_problem_def by (intro reachable.intros)

lemma pq_fields:
  "constraints pq_problem = take 2 pq_clauses"
  "fromInternal pq_problem = ['''', ''p'', ''q'']"
  "rules pq_problem = [(Num 1, [Num (- 2)]), (Num 2, [Num (- 1)])]"
  "nonRuleConstraints pq_problem = None"
  by code_simp+

lemma pq_complete_fields:
  "constraints (complete pq_problem) = pq_clauses"
  "nonRuleConstraints (complete pq_problem) = Some 2"
  by (simp_all add: complete_def pq_fields pq_clauses_def completion_clause_def)

lemma pq_initial_state:
  "initial_state half 0 (complete pq_problem) =
     \<lparr> assignment = [True, True, True], noise = 0, result = Some (2, Some 2),
       window = [0, 0, 0], iteration = 0, failsafe = 50000, pos = 4 \<rparr>"
proof -
  have a: "initial_assignment half 0 3 = [True, True, True]"
    by code_simp
  have s: "satisfies pq_clauses [True, True, True] half 3 = (Some (2, Some 2), 4)"
    by (simp add: satisfies_defs pq_clauses_def half_def)
  have r: "replicate 3 (0::nat) = [0, 0, 0]"
    by (simp add: numeral_3_eq_3)
  show ?thesis
    by (simp add: initial_state_def pq_complete_fields pq_fields Let_def
          numeral_3_eq_3[symmetric] a s r pq_clauses_def[THEN arg_cong, of length])
qed

lemma pq_iterate:
  "iterate pq_clauses half 3 (2, Some 2)
     \<lparr> assignment = [True, True, True], noise = 0, result = Some (2, Some 2),
       window = [0, 0, 0], iteration = 0, failsafe = 50000, pos = 4 \<rparr> =
     \<lparr> assignment = [True, True, False], noise = 0, result = None,
       window = [2, 0, 0], iteration = 1, failsafe = 49999, pos = 5 \<rparr>"
proof -
  have s: "satisfies pq_clauses [True, True, False] half 5 = (None, 5)"
    by (simp add: satisfies_defs pq_clauses_def half_def)
  show ?thesis
    by (simp add: iterate_def flip_suggestion_def flip_def s Let_def) (simp add: half_def)
qed

lemma pq_search:
  "search pq_clauses half 3
     \<lparr> assignment = [True, True, True], noise = 0, result = Some (2, Some 2),
       window = [0, 0, 0], iteration = 0, failsafe = 50000, pos = 4 \<rparr> =
     (\<lparr> assignment = [True, True, False], noise = 0, result = None,
        window = [2, 0, 0], iteration = 1, failsafe = 49999, pos = 5 \<rparr>, None)"
  by (subst search.simps) (simp add: pq_iterate Let_def search.simps)

lemma pq_solve_run:
  "solve_run half 0 pq_problem =
     (complete pq_problem,
      \<lparr> assignment = [True, True, False], noise = 0, result = None,
        window = [2, 0, 0], iteration = 1, failsafe = 49999, pos = 5 \<rparr>, None)"
  by (simp add: solve_run_def Let_def pq_initial_state pq_complete_fields
        numeral_3_eq_3[symmetric] pq_search)

lemma pq_solve:
  "solve half 0 pq_problem =
     (complete pq_problem, Inr \<lparr> satisfyingAssignment = [True, True, False] \<rparr>)"
  by (simp add: solve_def pq_solve_run)

subsection \<open>What a returned solution satisfies\<close>

lemma solve_Inr_run:
  assumes "solve rnd k p = (p', Inr s)"
  shows "\<exists>st. solve_run rnd k p = (p', st, None) \<and> satisfyingAssignment s = assignment st"
  using assms unfolding solve_def
  by (auto split: prod.splits option.splits)

lemma lookup_literal_true:
  assumes "A ! 0" and "lit_ok (length A) l"
  shows "lookup_literal A l = literal_true A l"
proof (cases l)
  case (Num i)
  with assms show ?thesis
    by (cases "i = 0") (auto simp: lookup_literal_def literal_true_def truthy_at_def lit_ok_def)
next
  case NaN
  then show ?thesis by (simp add: lookup_literal_def literal_true_def)
qed

text \<open>
  On a problem with at least one atom the search loop keeps the length of the assignment,
  and the assignment it ends on passes the test of \<^verbatim>\<open>satisfies\<close> on every clause.
\<close>

lemma solve_returns_model:
  assumes two: "2 \<le> length (fromInternal p)" and rnd: "random_ok rnd"
    and sol: "solve rnd k p = (p', Inr s)"
  shows "length (satisfyingAssignment s) = length (fromInternal p') \<and>
         satisfyingAssignment s ! 0 \<and>
         (\<forall>c \<in> set (constraints p'). clause_sat (satisfyingAssignment s) c) \<and>
         p' = complete p"
proof -
  from solve_Inr_run[OF sol] obtain st where run: "solve_run rnd k p = (p', st, None)"
    and a: "satisfyingAssignment s = assignment st" by blast
  from solve_run_inv[OF two rnd run] have p': "p' = complete p"
    and inv: "search_inv (constraints p') rnd (length (fromInternal p')) st"
    and res: "result st = None" by auto
  from inv res obtain k' where "fst (satisfies (constraints p') (assignment st) rnd k') = None"
    unfolding search_inv_def by metis
  then have "\<forall>c \<in> set (constraints p'). clause_sat (assignment st) c"
    by (simp add: satisfies_None)
  with inv a p' show ?thesis by (simp add: search_inv_def)
qed

text \<open>
  When, moreover, every literal of the store is an integer whose atom is in the registry,
  the test of \<^verbatim>\<open>satisfies\<close> is the count of true literals of the specification.
\<close>

lemma solve_sound_declared_atoms:
  assumes "2 \<le> length (fromInternal p)" and "random_ok rnd" and "solve rnd k p = (p', Inr s)"
    and "c \<in> set (constraints p')"
    and "\<forall>l \<in> set (clause c). lit_ok (length (fromInternal p')) l"
  shows "lo c \<le> satisfied_count (satisfyingAssignment s) (clause c) \<and>
         satisfied_count (satisfyingAssignment s) (clause c) \<le> hi c"
proof -
  let ?A = "satisfyingAssignment s"
  from solve_returns_model[OF assms(1-3)] have len: "length ?A = length (fromInternal p')"
    and a0: "?A ! 0" and sat: "clause_sat ?A c"
    using assms(4) by auto
  from assms(5) have "\<forall>l \<in> set (clause c). lit_ok (length ?A) l"
    by (simp add: len)
  then have "filter (lookup_literal ?A) (clause c) = filter (literal_true ?A) (clause c)"
    using lookup_literal_true[OF a0] by (intro filter_cong) auto
  then have "numLiteralsInClauseSatisfied ?A (clause c) = satisfied_count ?A (clause c)"
    by (simp add: numLiteralsInClauseSatisfied_def satisfied_count_def)
  with sat show ?thesis by (simp add: clause_sat_def)
qed

subsection \<open>The \<open>p\<close>/\<open>q\<close> problem\<close>

lemma exec_Solve: "exec (Solve rnd k) p = complete p"
  unfolding exec_def by (rule fst_run_Solve)

lemma reachable_complete: "reachable p \<Longrightarrow> reachable (complete p)"
  using reachable_exec[of p "Solve undefined 0"] by (simp add: exec_Solve)

lemma complete_idem: "complete (complete p) = complete p"
  by (simp add: complete_def split: option.splits)

lemma list3_cases:
  assumes "length A = 3"
  obtains a b c where "A = [a, b, c]"
proof -
  from assms obtain a A1 where 1: "A = a # A1" "length A1 = 2" by (cases A) auto
  then obtain b A2 where 2: "A1 = b # A2" "length A2 = 1" by (cases A1) auto
  then obtain c where 3: "A2 = [c]" by (cases A2) auto
  from 1 2 3 that show ?thesis by simp
qed

lemma pq_true_attributes:
  "trueAttributes \<lparr> satisfyingAssignment = [True, True, False] \<rparr> ['''', ''p'', ''q''] = [Some ''p'']"
  "trueAttributes \<lparr> satisfyingAssignment = [True, False, True] \<rparr> ['''', ''p'', ''q''] = [Some ''q'']"
  by code_simp+

lemma pq_models:
  assumes "length A = 3" and "A ! 0" and "\<forall>c \<in> set pq_clauses. clause_sat A c"
  shows "A = [True, True, False] \<or> A = [True, False, True]"
proof -
  from assms(1) obtain a b c where A: "A = [a, b, c]" by (rule list3_cases)
  with assms(2) have a: "a" by simp
  have 1: "clause_sat A \<lparr>lo = 1, hi = 2, clause = [Num 1, Num 2]\<rparr>"
    and 2: "clause_sat A \<lparr>lo = 1, hi = 2, clause = [Num (- 1), Num (- 2)]\<rparr>"
    using assms(3) by (simp_all add: pq_clauses_def)
  from 1 have "b \<or> c"
    by (auto simp: A clause_sat_def numLiteralsInClauseSatisfied_def lookup_literal_def truthy_at_def
          split: if_splits)
  moreover from 2 have "\<not> b \<or> \<not> c"
    by (auto simp: A clause_sat_def numLiteralsInClauseSatisfied_def lookup_literal_def truthy_at_def
          split: if_splits)
  ultimately show ?thesis using a A by auto
qed

subsection \<open>The checkpoint\<close>

lemma reset_reset [simp]: "reset (reset p) = reset p"
  by (simp add: reset_def split: option.splits)

lemma reset_None: "nonRuleConstraints p = None \<Longrightarrow> reset p = p"
  by (simp add: reset_def)

lemma reset_complete: "nonRuleConstraints p = None \<Longrightarrow> reset (complete p) = p"
  by (cases p) (simp add: reset_def complete_def)

lemma lookup_reset [simp]: "lookup (reset p) x = lookup p x"
  by (rule lookup_toInternal) simp

lemma lookups_reset [simp]: "lookups (reset p) xs = lookups p xs"
  by (rule lookups_toInternal) simp

lemma lookups_fromInternal_update [simp]:
  "lookups (p\<lparr>fromInternal := fi\<rparr>) xs = lookups p xs"
  by (rule lookups_toInternal) simp

lemma quantify_reset:
  "snd (quantify mn mx ps (reset p)) = snd (quantify mn mx ps p) \<and>
   (snd (quantify mn mx ps p) = None \<longrightarrow>
      fst (quantify mn mx ps (reset p)) = fst (quantify mn mx ps p))"
  by (simp add: quantify_def split: sum.splits)

lemma quantify_success:
  "quantify mn mx ps p = (p', None) \<Longrightarrow>
     nonRuleConstraints p' = None \<and> (\<exists>new. new \<noteq> [] \<and> constraints p' = constraints (reset p) @ new)"
  by (auto simp: quantify_def split: if_splits sum.splits)

lemma implies_c_reset:
  "snd (implies_c ps c (reset p)) = snd (implies_c ps c p) \<and>
   (snd (implies_c ps c p) = None \<longrightarrow>
      fst (implies_c ps c (reset p)) = fst (implies_c ps c p))"
  by (simp add: implies_c_def Let_def split: sum.splits)

lemma implies_c_success:
  "implies_c ps c p = (p', None) \<Longrightarrow>
     nonRuleConstraints p' = None \<and> (\<exists>new. new \<noteq> [] \<and> constraints p' = constraints (reset p) @ new)"
  by (auto simp: implies_c_def Let_def split: sum.splits)

lemma all_c_reset:
  "snd (all_c ps (reset p)) = snd (all_c ps p) \<and>
   (snd (all_c ps p) = None \<longrightarrow> fst (all_c ps (reset p)) = fst (all_c ps p))"
  using quantify_reset by (simp add: all_c_def)

lemma all_c_success:
  "all_c ps p = (p', None) \<Longrightarrow>
     nonRuleConstraints p' = None \<and> (\<exists>new. new \<noteq> [] \<and> constraints p' = constraints (reset p) @ new)"
  using quantify_success by (auto simp: all_c_def split: if_splits)

lemma equal_c_reset:
  "snd (equal_c a b (reset p)) = snd (equal_c a b p) \<and>
   (snd (equal_c a b p) = None \<longrightarrow> fst (equal_c a b (reset p)) = fst (equal_c a b p))"
  unfolding equal_c_def Let_def generate_eq
  using all_c_reset[of a p] all_c_reset[of b p]
  by (simp split: sum.splits)

lemma equal_c_success:
  "equal_c a b p = (p', None) \<Longrightarrow>
     nonRuleConstraints p' = None \<and> (\<exists>new. new \<noteq> [] \<and> constraints p' = constraints (reset p) @ new)"
  unfolding equal_c_def Let_def generate_eq
  using all_c_success[of a p p'] all_c_success[of b p p']
  by (auto split: if_splits sum.splits)

lemma rule_c_reset:
  "snd (rule_c c ps (reset p)) = snd (rule_c c ps p) \<and>
   (snd (rule_c c ps p) = None \<longrightarrow> fst (rule_c c ps (reset p)) = fst (rule_c c ps p))"
proof -
  obtain q e where i: "implies_c ps c p = (q, e)" by (cases "implies_c ps c p")
  obtain q' e' where i': "implies_c ps c (reset p) = (q', e')" by (cases "implies_c ps c (reset p)")
  from implies_c_reset[of ps c p] i i' have "e' = e" "e = None \<longrightarrow> q' = q" by auto
  then show ?thesis
    unfolding rule_c_def Let_def generate_eq i i'
    by (simp split: sum.splits option.splits)
qed

lemma rule_c_success:
  assumes "rule_c c ps p = (p', None)"
  shows "nonRuleConstraints p' = None \<and> (\<exists>new. new \<noteq> [] \<and> constraints p' = constraints (reset p) @ new)"
proof -
  obtain q e where i: "implies_c ps c p = (q, e)" by (cases "implies_c ps c p")
  from assms have e: "e = None"
    unfolding rule_c_def Let_def generate_eq i
    by (auto split: sum.splits option.splits if_splits)
  from implies_c_success[of ps c p q] i e obtain new where
    q: "nonRuleConstraints q = None" "new \<noteq> []" "constraints q = constraints (reset p) @ new" by auto
  from assms show ?thesis
    unfolding rule_c_def Let_def generate_eq i e
    using q by (auto split: sum.splits if_splits)
qed

lemma run_reset:
  assumes "is_constraint_call c"
  shows "snd (run c (reset p)) = snd (run c p) \<and>
         (snd (run c p) = None \<longrightarrow> fst (run c (reset p)) = fst (run c p))"
  using assms quantify_reset all_c_reset implies_c_reset equal_c_reset rule_c_reset
  by (cases c)
     (simp_all add: exactly_def atLeast_c_def atMost_c_def unique_def inconsistent_def assert_c_def)

lemma run_success:
  assumes "is_constraint_call c" and "run c p = (p', None)"
  shows "nonRuleConstraints p' = None \<and>
         (\<exists>new. new \<noteq> [] \<and> constraints p' = constraints (reset p) @ new)"
proof (cases c)
  case (Quantify mn mx ps)
  with assms quantify_success show ?thesis by simp
next
  case (Exactly n ps)
  with assms quantify_success[of n n ps p p'] show ?thesis
    by (simp add: exactly_def split: if_splits)
next
  case (All ps)
  with assms all_c_success show ?thesis by simp
next
  case (AtLeast mn ps)
  with assms quantify_success[of mn _ ps p p'] show ?thesis
    by (simp add: atLeast_c_def split: if_splits)
next
  case (AtMost mx ps)
  with assms quantify_success[of 0 mx ps p p'] show ?thesis
    by (simp add: atMost_c_def split: if_splits)
next
  case (Unique ps)
  with assms quantify_success[of 1 1 ps p p'] show ?thesis
    by (simp add: unique_def split: if_splits)
next
  case (Inconsistent a b)
  with assms quantify_success[of 0 1 "[a, b]" p p'] show ?thesis
    by (simp add: inconsistent_def atMost_c_def split: if_splits)
next
  case (Implies ps c')
  with assms implies_c_success show ?thesis by simp
next
  case (Equal a b)
  with assms equal_c_success show ?thesis by simp
next
  case (Assert a)
  with assms all_c_success[of "[a]" p p'] show ?thesis by (simp add: assert_c_def)
next
  case (Rule c' ps)
  with assms rule_c_success show ?thesis by simp
qed (use assms in simp_all)

lemma run_after_solve:
  assumes "is_constraint_call c" and "nonRuleConstraints p = None" and "run c (complete p) = (p', None)"
  shows "run c p = (p', None)"
proof -
  have r: "reset (complete p) = reset p" using assms(2) by (simp add: reset_complete reset_None)
  from run_reset[OF assms(1), of "complete p"] assms(3)
  have 1: "snd (run c (reset p)) = None" "fst (run c (reset p)) = p'" by (simp_all add: r)
  from run_reset[OF assms(1), of p] 1 have "snd (run c p) = None" "fst (run c p) = p'" by auto
  then show ?thesis by (cases "run c p") simp
qed

lemma neg_inj: "neg a = neg b \<Longrightarrow> a = b"
  by (cases a; cases b) simp_all

lemma completion_clause_inj: "completion_clause e = completion_clause e' \<Longrightarrow> e = e'"
  by (cases e, cases e') (auto simp: completion_clause_def dest: neg_inj)

lemma count_list_distinct:
  "distinct xs \<Longrightarrow> x \<in> set xs \<Longrightarrow> count_list xs x = 1"
  by (induction xs) auto

lemma count_list_map_inj:
  "(\<And>y. f y = f x \<Longrightarrow> y = x) \<Longrightarrow> count_list (map f xs) (f x) = count_list xs x"
  by (induction xs) auto

lemma completion_once:
  assumes "distinct (map fst rs)" and "(h, js) \<in> set rs"
  shows "count_list (map completion_clause rs)
           \<lparr> lo = 1, hi = int (length js) + 1, clause = neg h # js \<rparr> = 1"
proof -
  have d: "distinct rs" using assms(1) by (simp add: distinct_map)
  have "count_list (map completion_clause rs) (completion_clause (h, js)) = count_list rs (h, js)"
    by (rule count_list_map_inj) (auto dest: completion_clause_inj)
  also have "\<dots> = 1" by (rule count_list_distinct[OF d assms(2)])
  finally show ?thesis by (simp add: completion_clause_def)
qed

lemma solve_complete_twice: "fst (solve rnd' k' (fst (solve rnd k p))) = fst (solve rnd k p)"
  by (simp add: fst_solve complete_idem)

lemma complete_None:
  "nonRuleConstraints p = None \<Longrightarrow>
     constraints (complete p) = constraints p @ map completion_clause (rules p)"
  by (simp add: complete_def)

lemma pq_problem_eq: "pq_problem = exec (Rule ''p'' [''!q'']) pq_first_rule"
  by (simp add: pq_problem_def pq_first_rule_def pq_declared_def)

lemma reachable_pq_declared: "reachable pq_declared"
  unfolding pq_declared_def by (intro reachable.intros)

lemma reachable_pq_first_rule: "reachable pq_first_rule"
  unfolding pq_first_rule_def by (intro reachable.intros reachable_pq_declared)

lemma run_exec: "snd (run c p) = None \<Longrightarrow> run c p = (exec c p, None)"
  by (cases "run c p") (simp add: exec_def)

lemma pq_rule_runs:
  "snd (run (Rule ''q'' [''!p'']) pq_declared) = None"
  "snd (run (Rule ''p'' [''!q'']) pq_first_rule) = None"
  "snd (run (Rule ''p'' [''!q'']) (complete pq_first_rule)) = None"
  by code_simp+

subsection \<open>Evaluating the example problems\<close>

lemma reachable_greedy: "reachable greedy_problem"
  unfolding greedy_problem_def by (intro reachable.intros)

lemma greedy_constraints:
  "constraints greedy_problem =
     [\<lparr>lo = 1, hi = 1, clause = [Num 1]\<rparr>, \<lparr>lo = 1, hi = 1, clause = [Num 1]\<rparr>,
      \<lparr>lo = 1, hi = 1, clause = [Num 2]\<rparr>]"
  by code_simp

lemma reachable_abc: "reachable abc_problem"
  unfolding abc_problem_def by (intro reachable.intros)

lemma reachable_cycle: "reachable cycle_problem"
  unfolding cycle_problem_def by (intro reachable.intros reachable_abc)

lemma cycle_fields:
  "constraints cycle_problem =
     [\<lparr>lo = 1, hi = 2, clause = [Num (- 1), Num 2]\<rparr>, \<lparr>lo = 1, hi = 2, clause = [Num (- 2), Num 3]\<rparr>,
      \<lparr>lo = 1, hi = 2, clause = [Num (- 3), Num 1]\<rparr>, \<lparr>lo = 3, hi = 3, clause = [Num 1, Num 2, Num 3]\<rparr>]"
  "fromInternal cycle_problem = ['''', ''a'', ''b'', ''c'']"
  "rules cycle_problem = []"
  "nonRuleConstraints cycle_problem = None"
  by code_simp+

lemma cycle_scores:
  "scores (constraints cycle_problem) [True, False, False, False] = (3, [0, - 1, - 1, - 1])"
  unfolding cycle_fields by code_simp

lemma cycle_satisfiable:
  "fst (satisfies (constraints cycle_problem) [True, True, True, True] rnd k) = None"
  unfolding cycle_fields satisfies_None
  by (simp add: clause_sat_def numLiteralsInClauseSatisfied_def lookup_literal_def truthy_at_def)

subsection \<open>Failing lookups\<close>

lemma lookups_Inl:
  "(\<exists>x \<in> set xs. \<exists>e. lookup p x = Inl e) \<Longrightarrow> \<exists>e. lookups p xs = Inl e"
proof (induction xs)
  case Nil
  then show ?case by simp
next
  case (Cons a xs)
  show ?case
  proof (cases "lookup p a")
    case (Inl e)
    then show ?thesis by simp
  next
    case (Inr l)
    with Cons.prems have "\<exists>x \<in> set xs. \<exists>e. lookup p x = Inl e" by auto
    from Cons.IH[OF this] Inr show ?thesis by auto
  qed
qed

lemma lookups_Inr_all:
  "lookups p xs = Inr ls \<Longrightarrow> \<forall>x \<in> set xs. \<exists>l. lookup p x = Inr l"
  by (induction xs arbitrary: ls) (auto split: sum.splits)

lemma singleton_nth0: "length xs = Suc 0 \<Longrightarrow> xs = [xs ! 0]"
  by (cases xs) auto

lemma abc_lookups: "lookups abc_problem [''a'', ''b'', ''c''] = Inr [Num 1, Num 2, Num 3]"
  by code_simp

lemma abc_fields:
  "constraints abc_problem = []"
  "nonRuleConstraints abc_problem = None"
  by code_simp+

lemma pq_complete_lookup_fails: "lookup (complete pq_problem) ''zz'' = Inl NoPredicateDeclared"
  by code_simp

text \<open>
  When a lookup of \<^verbatim>\<open>equal(A, B)\<close> throws, with both lists non-empty, the call has already
  truncated the store to the checkpoint and cleared the checkpoint, and when both lists
  have two or more propositions it has added an anonymous id; nothing else has changed.
\<close>

lemma equal_throws_after_reset:
  assumes "a \<noteq> []" and "b \<noteq> []" and "\<exists>x \<in> set a \<union> set b. \<exists>e. lookup p x = Inl e"
  shows "(\<exists>e. snd (equal_c a b p) = Some e) \<and>
         nonRuleConstraints (fst (equal_c a b p)) = None \<and>
         constraints (fst (equal_c a b p)) =
           (case nonRuleConstraints p of None \<Rightarrow> constraints p
            | Some n \<Rightarrow> take n (constraints p)) \<and>
         fromInternal (fst (equal_c a b p)) =
           (if 2 \<le> length a \<and> 2 \<le> length b then fromInternal p @ [''''] else fromInternal p) \<and>
         toInternal (fst (equal_c a b p)) = toInternal p \<and>
         rules (fst (equal_c a b p)) = rules p"
proof -
  let ?g = "(reset p)\<lparr>fromInternal := fromInternal (reset p) @ ['''']\<rparr>"
  have la: "length a \<noteq> 0" and lb: "length b \<noteq> 0" using assms(1,2) by simp_all
  from assms(3) have fail: "(\<exists>x \<in> set a. \<exists>e. lookup p x = Inl e) \<or> (\<exists>x \<in> set b. \<exists>e. lookup p x = Inl e)"
    by auto
  have none: "\<not> (\<exists>ca cb. lookups p a = Inr ca \<and> lookups p b = Inr cb)"
    using fail lookups_Inr_all[of p a] lookups_Inr_all[of p b] by fastforce
  have one: "lookups p [x] = Inr [l] \<longleftrightarrow> lookup p x = Inr l" for x l
    by (auto split: sum.splits)
  consider (one_one) "length a = Suc 0" "length b = Suc 0"
    | (one_many) "length a = Suc 0" "2 \<le> length b"
    | (many_one) "2 \<le> length a" "length b = Suc 0"
    | (many_many) "2 \<le> length a" "2 \<le> length b"
    using la lb by linarith
  then show ?thesis
  proof cases
    case one_one
    then have a: "a = [a ! 0]" and b: "b = [b ! 0]" by (auto dest: singleton_nth0)
    have n: "\<not> (\<exists>l1 l2. lookup p (a ! 0) = Inr l1 \<and> lookup p (b ! 0) = Inr l2)"
    proof
      assume "\<exists>l1 l2. lookup p (a ! 0) = Inr l1 \<and> lookup p (b ! 0) = Inr l2"
      then obtain l1 l2 where "lookup p (a ! 0) = Inr l1" "lookup p (b ! 0) = Inr l2" by blast
      then have "lookups p [a ! 0] = Inr [l1]" "lookups p [b ! 0] = Inr [l2]" by (simp_all add: one)
      with none a b show False by metis
    qed
    show ?thesis
    proof (cases "lookup p (a ! 0)")
      case (Inl e)
      then show ?thesis using one_one assms(1,2) by (simp add: equal_c_def Let_def)
    next
      case (Inr l1)
      note A = this
      show ?thesis
      proof (cases "lookup p (b ! 0)")
        case (Inl e)
        then show ?thesis using one_one A assms(1,2) by (simp add: equal_c_def Let_def)
      next
        case (Inr l2)
        with A n show ?thesis by blast
      qed
    qed
  next
    case one_many
    then have a: "a = [a ! 0]" by (auto dest: singleton_nth0)
    have n: "\<not> (\<exists>ls l. lookups p b = Inr ls \<and> lookup p (a ! 0) = Inr l)"
    proof
      assume "\<exists>ls l. lookups p b = Inr ls \<and> lookup p (a ! 0) = Inr l"
      then obtain ls l where "lookups p b = Inr ls" "lookup p (a ! 0) = Inr l" by blast
      then have "lookups p [a ! 0] = Inr [l]" "lookups p b = Inr ls" by (simp_all add: one)
      with none a show False by metis
    qed
    show ?thesis
    proof (cases "lookups p b")
      case (Inl e)
      then show ?thesis using one_many assms(1,2) by (simp add: equal_c_def Let_def)
    next
      case (Inr ls)
      note B = this
      show ?thesis
      proof (cases "lookup p (a ! 0)")
        case (Inl e)
        then show ?thesis using one_many B assms(1,2) by (simp add: equal_c_def Let_def)
      next
        case (Inr l)
        with B n show ?thesis by blast
      qed
    qed
  next
    case many_one
    then have b: "b = [b ! 0]" by (auto dest: singleton_nth0)
    have n: "\<not> (\<exists>ls l. lookups p a = Inr ls \<and> lookup p (b ! 0) = Inr l)"
    proof
      assume "\<exists>ls l. lookups p a = Inr ls \<and> lookup p (b ! 0) = Inr l"
      then obtain ls l where "lookups p a = Inr ls" "lookup p (b ! 0) = Inr l" by blast
      then have "lookups p [b ! 0] = Inr [l]" "lookups p a = Inr ls" by (simp_all add: one)
      with none b show False by metis
    qed
    show ?thesis
    proof (cases "lookups p a")
      case (Inl e)
      then show ?thesis using many_one assms(1,2) by (simp add: equal_c_def Let_def)
    next
      case (Inr ls)
      note A = this
      show ?thesis
      proof (cases "lookup p (b ! 0)")
        case (Inl e)
        then show ?thesis using many_one A assms(1,2) by (simp add: equal_c_def Let_def)
      next
        case (Inr l)
        with A n show ?thesis by blast
      qed
    qed
  next
    case many_many
    show ?thesis
    proof (cases "lookups p a")
      case (Inl e)
      then show ?thesis using many_many assms(1,2) by (simp add: equal_c_def Let_def generate_eq)
    next
      case (Inr ca)
      note A = this
      show ?thesis
      proof (cases "lookups p b")
        case (Inl e)
        then show ?thesis using many_many A assms(1,2) by (simp add: equal_c_def Let_def generate_eq)
      next
        case (Inr cb)
        with A none show ?thesis by blast
      qed
    qed
  qed
qed

subsection \<open>Evaluating the problems with arguments found on the prototype chain\<close>

lemma reachable_t: "reachable t_problem"
  unfolding t_problem_def by (intro reachable.intros)

lemma t_fields:
  "constraints t_problem = [\<lparr> lo = 1, hi = 1, clause = [Num (- 2)] \<rparr>]"
  "fromInternal t_problem = ['''', ''t x y z'']"
  "rules t_problem = []"
  "nonRuleConstraints t_problem = None"
  by code_simp+

lemma initial_assignment_2:
  "initial_assignment rnd k (Suc (Suc 0)) = [True, 1 / 2 \<le> rnd (k + 1)]"
  by (simp add: initial_assignment_def upt_conv_Cons)

lemma t_solve:
  "solve rnd k t_problem =
     (complete t_problem, Inr \<lparr> satisfyingAssignment = [True, 1 / 2 \<le> rnd (k + 1)] \<rparr>)"
proof -
  have c: "constraints (complete t_problem) = [\<lparr> lo = 1, hi = 1, clause = [Num (- 2)] \<rparr>]"
    by (simp add: complete_def t_fields)
  have s: "satisfies [\<lparr> lo = 1, hi = 1, clause = [Num (- 2)] \<rparr>] [True, b] rnd j = (None, j)" for b j
    by (simp add: satisfies_defs)
  show ?thesis
    by (simp add: solve_def solve_run_def initial_state_def Let_def c t_fields
          initial_assignment_2 s search.simps)
qed

lemma reachable_c: "reachable c_problem"
  unfolding c_problem_def by (intro reachable.intros)

lemma random_ok_tenth: "random_ok tenth"
  by (simp add: random_ok_def tenth_def)

lemma c_fields:
  "constraints c_problem = [\<lparr> lo = 1, hi = 1, clause = [Num 1] \<rparr>]"
  "fromInternal c_problem = ['''']"
  "rules c_problem = []"
  "nonRuleConstraints c_problem = None"
  by code_simp+

lemma c_satisfies:
  "satisfies [\<lparr> lo = 1, hi = 1, clause = [Num 1] \<rparr>] [True] rnd j = (Some (0, None), j + 1)"
  "satisfies [\<lparr> lo = 1, hi = 1, clause = [Num 1] \<rparr>] [True, True] rnd j = (None, j)"
  by (simp_all add: satisfies_defs best_loop.simps)

lemma c_solve:
  "solve tenth 0 c_problem = (complete c_problem, Inr \<lparr> satisfyingAssignment = [True, True] \<rparr>)"
proof -
  let ?cs = "[\<lparr> lo = 1, hi = 1, clause = [Num 1] \<rparr>]"
  let ?s0 = "\<lparr> assignment = [True], noise = 0, result = Some (0, None),
               window = [0, 0, 0], iteration = 0, failsafe = 50000, pos = 2 \<rparr>"
  let ?s1 = "\<lparr> assignment = [True], noise = 1 / 5, result = Some (0, None),
               window = [0, 0, 0], iteration = Suc 0, failsafe = 49999, pos = 4 \<rparr>"
  let ?s2 = "\<lparr> assignment = [True, True], noise = 9 / 25, result = None,
               window = [0, 0, 0], iteration = 2, failsafe = 49998, pos = 6 \<rparr>"
  have c: "constraints (complete c_problem) = ?cs"
    by (simp add: complete_def c_fields)
  have a: "initial_assignment tenth 0 (Suc 0) = [True]"
    by (simp add: initial_assignment_def)
  have r: "replicate 3 (0::nat) = [0, 0, 0]"
    by (simp add: numeral_3_eq_3)
  have w: "\<lceil>(1 :: rat) / 6\<rceil> = 1"
    by (rule ceiling_unique) simp_all
  have i0: "initial_state tenth 0 (complete c_problem) = ?s0"
    by (simp add: initial_state_def Let_def c c_fields a c_satisfies w r)
  have i1: "iterate ?cs tenth 3 (0, None) ?s0 = ?s1"
    by (simp add: iterate_def Let_def flip_suggestion_def c_satisfies) (simp add: tenth_def)
  have i2: "iterate ?cs tenth 3 (0, None) ?s1 = ?s2"
    by (simp add: iterate_def Let_def flip_def c_satisfies tenth_def)
  have s2: "search ?cs tenth 3 ?s2 = (?s2, None)"
    by (subst search.simps) simp
  have s1: "search ?cs tenth 3 ?s1 = (?s2, None)"
    by (subst search.simps) (simp add: i2 Let_def s2)
  have s: "search ?cs tenth 3 ?s0 = (?s2, None)"
    by (subst search.simps) (simp add: i1 Let_def s1)
  show ?thesis
    by (simp add: solve_def solve_run_def Let_def i0 c numeral_3_eq_3[symmetric] s)
qed




lemma f_lookups_list:
  "lookups f_problem [''a'', ''f constructor''] = Inr [Num 1, NaN]"
  "lookups f_problem [''a'', ''f y''] = Inl (InvalidArgument 1)"
  by code_simp+

subsection \<open>Reading a solution against a later registry\<close>

lemma declared_id_stable:
  assumes "extends p q" and "declared_id attr (toInternal p) = Some i"
  shows "declared_id attr (toInternal q) = Some i"
proof -
  from declared_id_slot[OF assms(2)] obtain sl
    where sl: "own (toInternal p) (hd (split_space attr)) = Some sl" by blast
  with assms(1) have "own (toInternal q) (hd (split_space attr)) = Some sl" by (simp add: extends_def)
  with sl have "own (toInternal q) (hd (split_space attr)) = own (toInternal p) (hd (split_space attr))"
    by simp
  from declared_id_cong[of "toInternal q" attr "toInternal p", OF this] assms(2)
  show ?thesis by simp
qed

lemma declared_id_new:
  assumes "extends p q" and "declared_id attr (toInternal q) = Some i"
    and "declared_id attr (toInternal p) \<noteq> Some i"
  shows "length (fromInternal p) \<le> i"
proof -
  from declared_id_slot[OF assms(2)] obtain sl
    where sl: "own (toInternal q) (hd (split_space attr)) = Some sl" and i: "i \<in> slot_ids sl" by blast
  from assms(1) sl have "own (toInternal p) (hd (split_space attr)) = Some sl \<or>
      (own (toInternal p) (hd (split_space attr)) = None \<and> (\<forall>i \<in> slot_ids sl. length (fromInternal p) \<le> i))"
    by (simp add: extends_def)
  then show ?thesis
  proof
    assume "own (toInternal p) (hd (split_space attr)) = Some sl"
    with sl have "own (toInternal p) (hd (split_space attr)) = own (toInternal q) (hd (split_space attr))"
      by simp
    from declared_id_cong[of "toInternal p" attr "toInternal q", OF this] assms(2,3)
    show ?thesis by simp
  next
    assume "own (toInternal p) (hd (split_space attr)) = None \<and> (\<forall>i \<in> slot_ids sl. length (fromInternal p) \<le> i)"
    with i show ?thesis by blast
  qed
qed

lemma declared_id_in_range:
  assumes "registry_ok p" and "declared_id attr (toInternal p) = Some i"
  shows "i < length (fromInternal p)"
proof -
  from declared_id_slot[OF assms(2)] obtain sl
    where "own (toInternal p) (hd (split_space attr)) = Some sl" "i \<in> slot_ids sl" by blast
  with assms(1) show ?thesis by (auto simp: registry_ok_def)
qed

text \<open>
  On a problem with at least one atom the returned assignment has one entry for every id
  of the registry. Then, whatever calls follow, an attribute declared when the solution
  was produced reads the value the solution assigns to it, and an attribute declared
  later makes \<^verbatim>\<open>s.lookup\<close> throw.
\<close>

lemma stale_lookup_declared:
  assumes "reachable p" and "2 \<le> length (fromInternal p)" and "random_ok rnd"
    and "solve rnd k p = (p', Inr s)"
  shows "(\<forall>attr i. declared_id attr (toInternal p') = Some i \<longrightarrow>
            i < length (satisfyingAssignment s) \<and>
            Solution_lookup s (toInternal (fold exec calls p')) attr =
              Inr (Some (satisfyingAssignment s ! i))) \<and>
         (\<forall>attr i. declared_id attr (toInternal (fold exec calls p')) = Some i \<and>
              declared_id attr (toInternal p') \<noteq> Some i \<longrightarrow>
            length (fromInternal p') \<le> i \<and>
            Solution_lookup s (toInternal (fold exec calls p')) attr = Inl DefinedAfter)"
proof -
  let ?q = "fold exec calls p'"
  from solve_returns_model[OF assms(2-4)]
  have len: "length (satisfyingAssignment s) = length (fromInternal p')" and p': "p' = complete p"
    by auto
  have "reachable p'" unfolding p' by (rule reachable_complete[OF assms(1)])
  then have ok: "registry_ok p'" by (rule reachable_registry_ok)
  from extends_fold[OF ok, of calls] have ext: "extends p' ?q" by simp
  have 1: "i < length (satisfyingAssignment s) \<and>
           Solution_lookup s (toInternal ?q) attr = Inr (Some (satisfyingAssignment s ! i))"
    if "declared_id attr (toInternal p') = Some i" for attr i
  proof -
    have r: "i < length (satisfyingAssignment s)" using declared_id_in_range[OF ok that] len by simp
    from declared_id_slot[OF declared_id_stable[OF ext that]]
    have "lookupAttributeInMap attr (toInternal ?q) = Inr (Number i)" by blast
    with r show ?thesis by (simp add: Solution_lookup_def)
  qed
  have 2: "length (fromInternal p') \<le> i \<and> Solution_lookup s (toInternal ?q) attr = Inl DefinedAfter"
    if "declared_id attr (toInternal ?q) = Some i"
      and "declared_id attr (toInternal p') \<noteq> Some i" for attr i
  proof -
    have g: "length (fromInternal p') \<le> i" by (rule declared_id_new[OF ext that])
    from declared_id_slot[OF that(1)]
    have "lookupAttributeInMap attr (toInternal ?q) = Inr (Number i)" by blast
    with g len show ?thesis by (simp add: Solution_lookup_def)
  qed
  from 1 2 show ?thesis by blast
qed

section \<open>The claims\<close>

text \<open>
  C1. Soundness of returned solutions: the claim is that whenever \<^verbatim>\<open>solve()\<close> returns a
  Solution, every cardinality clause \<open>(lo, hi, L)\<close> of the store has between \<open>lo\<close> and \<open>hi\<close>
  literals of \<open>L\<close> true under the returned assignment, a negative literal \<open>-a\<close> being true
  when atom \<open>a\<close> is assigned false. On the problem below the only atom is \<^verbatim>\<open>t x y z\<close>
  (id 1), and the proposition \<^verbatim>\<open>!t constructor defineProperties length\<close>, whose arguments
  are in none of the domains, does not throw: the reads go through \<^verbatim>\<open>Object.prototype\<close> to
  the \<^verbatim>\<open>length\<close> of the function \<^verbatim>\<open>Object.defineProperties\<close>, and the lookup returns \<open>-2\<close>.
  The store holds the clause \<open>(1, 1, [-2])\<close>; \<^verbatim>\<open>satisfies\<close> reads \<^verbatim>\<open>!assignment[2]\<close> beyond the
  assignment as true, so \<^verbatim>\<open>solve()\<close> returns its initial assignment for every random
  sequence, and under it no literal of the clause is true: there is no atom 2. Where all
  stored literals are integers of registered atoms the claim holds (lemma
  \<open>solve_sound_declared_atoms\<close>).
\<close>

theorem solve_returns_unsatisfied_clause:
  "reachable t_problem \<and>
   fromInternal t_problem = ['''', ''t x y z''] \<and>
   lookup t_problem ''!t x y w'' = Inl (InvalidArgument 3) \<and>
   lookup t_problem ''!t constructor defineProperties length'' = Inr (Num (- 2)) \<and>
   constraints (complete t_problem) = [\<lparr> lo = 1, hi = 1, clause = [Num (- 2)] \<rparr>] \<and>
   solve rnd k t_problem =
     (complete t_problem, Inr \<lparr> satisfyingAssignment = [True, 1 / 2 \<le> rnd (k + 1)] \<rparr>) \<and>
   satisfied_count [True, 1 / 2 \<le> rnd (k + 1)] [Num (- 2)] = 0 \<and>
   \<not> (1 \<le> satisfied_count [True, 1 / 2 \<le> rnd (k + 1)] [Num (- 2)])"
proof -
  have 1: "lookup t_problem ''!t x y w'' = Inl (InvalidArgument 3)"
    "lookup t_problem ''!t constructor defineProperties length'' = Inr (Num (- 2))"
    by code_simp+
  have 2: "constraints (complete t_problem) = [\<lparr> lo = 1, hi = 1, clause = [Num (- 2)] \<rparr>]"
    by (simp add: complete_def t_fields completion_clause_def)
  have 3: "satisfied_count [True, b] [Num (- 2)] = 0" for b
    by (simp add: satisfied_count_def literal_true_def)
  from reachable_t t_fields(2) 1 2 t_solve[of rnd k] 3[of "1 / 2 \<le> rnd (k + 1)"]
  show ?thesis by simp
qed

text \<open>
  C8. Bounded termination of \<^verbatim>\<open>solve\<close>: for every problem and every random sequence the
  call ends, either returning a Solution after fewer than 50000 iterations of the search
  loop or throwing the timeout error at the 50000th; there is no other outcome.
\<close>

theorem solve_terminates_bounded:
  "(\<exists>s. snd (solve rnd k p) = Inr s \<and> iteration (fst (snd (solve_run rnd k p))) < 50000) \<or>
   (snd (solve rnd k p) = Inl Timeout \<and> iteration (fst (snd (solve_run rnd k p))) = 50000)"
proof -
  obtain p' st err where run: "solve_run rnd k p = (p', st, err)"
    by (cases "solve_run rnd k p") auto
  from solve_run_count[OF run] show ?thesis
    by (auto simp: solve_def run)
qed

text \<open>
  C2. Negative-loop rule semantics: on the problem with the nullary attributes \<open>p\<close> and
  \<open>q\<close> and the two constraints \<^verbatim>\<open>rule('q', ['!p'])\<close> and \<^verbatim>\<open>rule('p', ['!q'])\<close>, every
  Solution that \<^verbatim>\<open>solve()\<close> returns, at the first call or at a later one, has
  \<^verbatim>\<open>trueAttributes\<close> equal to \<^verbatim>\<open>['p']\<close> or to \<^verbatim>\<open>['q']\<close>; the assignment making both true
  is never returned.
\<close>

theorem negative_loop_models:
  assumes "random_ok rnd" and "p = pq_problem \<or> p = complete pq_problem"
    and "solve rnd k p = (p', Inr s)"
  shows "trueAttributes s (fromInternal p') = [Some ''p''] \<or>
         trueAttributes s (fromInternal p') = [Some ''q'']"
proof -
  have two: "2 \<le> length (fromInternal p)"
    using assms(2) by (auto simp: pq_fields)
  from solve_returns_model[OF two assms(1,3)]
  have len: "length (satisfyingAssignment s) = length (fromInternal p')"
    and a0: "satisfyingAssignment s ! 0"
    and sat: "\<forall>c \<in> set (constraints p'). clause_sat (satisfyingAssignment s) c"
    and p': "p' = complete p" by auto
  have p'': "p' = complete pq_problem" using p' assms(2) by (auto simp: complete_idem)
  have fi: "fromInternal p' = ['''', ''p'', ''q'']" by (simp add: p'' pq_fields)
  have cs: "constraints p' = pq_clauses" by (simp add: p'' pq_complete_fields)
  from pq_models[of "satisfyingAssignment s"] len a0 sat
  have "satisfyingAssignment s = [True, True, False] \<or> satisfyingAssignment s = [True, False, True]"
    by (simp add: fi cs)
  then have "s = \<lparr> satisfyingAssignment = [True, True, False] \<rparr> \<or>
             s = \<lparr> satisfyingAssignment = [True, False, True] \<rparr>"
    by (cases s) auto
  then show ?thesis using pq_true_attributes by (auto simp: fi)
qed

theorem negative_loop_models_witness:
  "random_ok half \<and>
   solve half 0 pq_problem = (complete pq_problem, Inr \<lparr> satisfyingAssignment = [True, True, False] \<rparr>) \<and>
   (trueAttributes \<lparr> satisfyingAssignment = [True, True, False] \<rparr> (fromInternal (complete pq_problem)) = [Some ''p''] \<or>
    trueAttributes \<lparr> satisfyingAssignment = [True, True, False] \<rparr> (fromInternal (complete pq_problem)) = [Some ''q''])"
proof -
  have d: "pq_problem = pq_problem \<or> pq_problem = complete pq_problem" by (rule disjI1) (rule refl)
  from negative_loop_models[OF random_ok_half d pq_solve] random_ok_half pq_solve
  show ?thesis by (intro conjI)
qed

text \<open>
  C3. Rule completion clause shape: on the first \<^verbatim>\<open>solve()\<close> after a successful
  constraint-adding call, the clauses appended to the store are, for every atom \<open>h\<close>
  recorded as a rule head with justifications \<open>j\<^sub>1, \<dots>, j\<^sub>k\<close> (in recording order), exactly
  one clause \<open>(1, k + 1, [-h, j\<^sub>1, \<dots>, j\<^sub>k])\<close>, and nothing else; a second \<^verbatim>\<open>solve()\<close> with
  no constraint added in between appends no further clause.
\<close>

theorem completion_clause_shape:
  assumes "reachable p0" and "is_constraint_call c" and "run c p0 = (p, None)"
  shows "constraints (fst (solve rnd k p)) = constraints p @ map completion_clause (rules p) \<and>
         (\<forall>h js. (h, js) \<in> set (rules p) \<longrightarrow>
            count_list (map completion_clause (rules p))
              \<lparr> lo = 1, hi = int (length js) + 1, clause = neg h # js \<rparr> = 1) \<and>
         (\<forall>c' \<in> set (map completion_clause (rules p)).
            \<exists>h js. (h, js) \<in> set (rules p) \<and>
              c' = \<lparr> lo = 1, hi = int (length js) + 1, clause = neg h # js \<rparr>) \<and>
         fst (solve rnd' k' (fst (solve rnd k p))) = fst (solve rnd k p)"
proof -
  have p: "p = exec c p0" using assms(3) by (simp add: exec_def)
  have reach: "reachable p" unfolding p by (rule reachable_exec[OF assms(1)])
  have n: "nonRuleConstraints p = None" using run_success[OF assms(2,3)] by simp
  have 1: "constraints (fst (solve rnd k p)) = constraints p @ map completion_clause (rules p)"
    by (simp add: fst_solve complete_None[OF n])
  have 2: "\<forall>h js. (h, js) \<in> set (rules p) \<longrightarrow>
            count_list (map completion_clause (rules p))
              \<lparr> lo = 1, hi = int (length js) + 1, clause = neg h # js \<rparr> = 1"
    using completion_once[OF rules_distinct[OF reach]] by blast
  have 3: "\<forall>c' \<in> set (map completion_clause (rules p)).
            \<exists>h js. (h, js) \<in> set (rules p) \<and>
              c' = \<lparr> lo = 1, hi = int (length js) + 1, clause = neg h # js \<rparr>"
    by (auto simp: completion_clause_def)
  from 1 2 3 solve_complete_twice show ?thesis by blast
qed

theorem completion_clause_shape_witness:
  "reachable pq_first_rule \<and> is_constraint_call (Rule ''p'' [''!q'']) \<and>
   run (Rule ''p'' [''!q'']) pq_first_rule = (pq_problem, None) \<and>
   constraints (fst (solve half 0 pq_problem)) =
     constraints pq_problem @ map completion_clause (rules pq_problem) \<and>
   (Num 1, [Num (- 2)]) \<in> set (rules pq_problem) \<and>
   count_list (map completion_clause (rules pq_problem))
     \<lparr> lo = 1, hi = 2, clause = [Num (- 1), Num (- 2)] \<rparr> = 1 \<and>
   fst (solve half 5 (fst (solve half 0 pq_problem))) = fst (solve half 0 pq_problem)"
proof -
  have c: "is_constraint_call (Rule ''p'' [''!q''])" by simp
  have r: "run (Rule ''p'' [''!q'']) pq_first_rule = (pq_problem, None)"
    using run_exec[OF pq_rule_runs(2)] by (simp add: pq_problem_eq)
  have m: "(Num 1, [Num (- 2)]) \<in> set (rules pq_problem)" by (simp add: pq_fields)
  from completion_clause_shape[OF reachable_pq_first_rule c r, of half 0 half 5] m
  have "constraints (fst (solve half 0 pq_problem)) =
          constraints pq_problem @ map completion_clause (rules pq_problem)"
    and "count_list (map completion_clause (rules pq_problem))
          \<lparr> lo = 1, hi = int (length [Num (- 2)]) + 1, clause = neg (Num 1) # [Num (- 2)] \<rparr> = 1"
    and "fst (solve half 5 (fst (solve half 0 pq_problem))) = fst (solve half 0 pq_problem)"
    by blast+
  with reachable_pq_first_rule c r m show ?thesis by simp
qed

text \<open>
  C4. Checkpoint truncation and idempotence: a successful constraint-adding call leaves
  the checkpoint cleared and the clause list equal to the list truncated to the
  checkpoint (when one was set) followed by the call's own clauses. Consequently, after
  adding a constraint, solving, adding another constraint and solving again, the store
  is what the two constraints alone produce (as if no \<^verbatim>\<open>solve()\<close> had come between them)
  followed by one copy of the completion clauses, with no completion clause twice.
\<close>

theorem checkpoint_idempotence:
  assumes "reachable p" and "is_constraint_call c1" and "run c1 p = (p1, None)"
    and "is_constraint_call c2" and "run c2 (fst (solve rnd k p1)) = (p3, None)"
  shows "nonRuleConstraints p1 = None \<and>
         (\<exists>new. new \<noteq> [] \<and> constraints p1 =
            (case nonRuleConstraints p of None \<Rightarrow> constraints p
             | Some n \<Rightarrow> take n (constraints p)) @ new) \<and>
         nonRuleConstraints p3 = None \<and>
         (\<exists>new. new \<noteq> [] \<and> constraints p3 = constraints p1 @ new) \<and>
         run c2 p1 = (p3, None) \<and>
         constraints (fst (solve rnd' k' p3)) = constraints p3 @ map completion_clause (rules p3) \<and>
         distinct (map completion_clause (rules p3))"
proof -
  from run_success[OF assms(2,3)] have n1: "nonRuleConstraints p1 = None"
    and c1: "\<exists>new. new \<noteq> [] \<and> constraints p1 =
            (case nonRuleConstraints p of None \<Rightarrow> constraints p
             | Some n \<Rightarrow> take n (constraints p)) @ new"
    by simp_all
  have s: "fst (solve rnd k p1) = complete p1" by (rule fst_solve)
  from run_success[OF assms(4,5)] have n3: "nonRuleConstraints p3 = None"
    and c3: "\<exists>new. new \<noteq> [] \<and> constraints p3 = constraints p1 @ new"
    by (simp_all add: s reset_complete[OF n1])
  have r: "run c2 p1 = (p3, None)"
    using run_after_solve[OF assms(4) n1] assms(5) by (simp add: s)
  have p1: "p1 = exec c1 p" using assms(3) by (simp add: exec_def)
  have p3: "p3 = exec c2 p1" using r by (simp add: exec_def)
  have reach3: "reachable p3" unfolding p3 p1
    by (intro reachable_exec assms(1))
  have d: "distinct (map completion_clause (rules p3))"
    using rules_distinct[OF reach3]
    by (auto simp: distinct_map intro!: inj_onI dest: completion_clause_inj)
  have e: "constraints (fst (solve rnd' k' p3)) = constraints p3 @ map completion_clause (rules p3)"
    by (simp add: fst_solve complete_None[OF n3])
  from n1 c1 n3 c3 r e d show ?thesis by blast
qed

theorem checkpoint_idempotence_witness:
  "reachable pq_declared \<and> is_constraint_call (Rule ''q'' [''!p'']) \<and>
   run (Rule ''q'' [''!p'']) pq_declared = (pq_first_rule, None) \<and>
   is_constraint_call (Rule ''p'' [''!q'']) \<and>
   run (Rule ''p'' [''!q'']) (fst (solve half 0 pq_first_rule)) =
     (exec (Rule ''p'' [''!q'']) (complete pq_first_rule), None) \<and>
   run (Rule ''p'' [''!q'']) pq_first_rule =
     (exec (Rule ''p'' [''!q'']) (complete pq_first_rule), None) \<and>
   exec (Rule ''p'' [''!q'']) (complete pq_first_rule) = pq_problem \<and>
   constraints (fst (solve half 0 pq_problem)) =
     constraints pq_problem @ map completion_clause (rules pq_problem)"
proof -
  have c1: "is_constraint_call (Rule ''q'' [''!p''])" and c2: "is_constraint_call (Rule ''p'' [''!q''])"
    by simp_all
  have r1: "run (Rule ''q'' [''!p'']) pq_declared = (pq_first_rule, None)"
    using run_exec[OF pq_rule_runs(1)] by (simp add: pq_first_rule_def)
  have r2: "run (Rule ''p'' [''!q'']) (fst (solve half 0 pq_first_rule)) =
     (exec (Rule ''p'' [''!q'']) (complete pq_first_rule), None)"
    using run_exec[OF pq_rule_runs(3)] by (simp add: fst_solve)
  from checkpoint_idempotence[OF reachable_pq_declared c1 r1 c2 r2, of half 0]
  have a: "run (Rule ''p'' [''!q'']) pq_first_rule =
     (exec (Rule ''p'' [''!q'']) (complete pq_first_rule), None)"
    and b: "constraints (fst (solve half 0 (exec (Rule ''p'' [''!q'']) (complete pq_first_rule)))) =
      constraints (exec (Rule ''p'' [''!q'']) (complete pq_first_rule)) @
      map completion_clause (rules (exec (Rule ''p'' [''!q'']) (complete pq_first_rule)))"
    by blast+
  have e: "exec (Rule ''p'' [''!q'']) (complete pq_first_rule) = pq_problem"
    using a by (simp add: pq_problem_eq exec_def)
  from c1 c2 r1 r2 a b e reachable_pq_declared show ?thesis by simp
qed

text \<open>
  C5. Suggestion selection: the claim is that the suggestion of \<^verbatim>\<open>satisfies()\<close> is drawn
  from the atoms of highest net score (score 0 included when no atom scores higher). The
  source compares every score with \<^verbatim>\<open>bestNum\<close>, which stays \<open>0\<close>: each positive score
  replaces the candidates. On the problem below the scores are \<open>2\<close> for atom 1 and \<open>1\<close> for
  atom 2, and the only candidate is atom 2.
\<close>

theorem suggestion_not_highest_score:
  "reachable greedy_problem \<and>
   scores (constraints greedy_problem) [True, False, False] = (0, [0, 2, 1]) \<and>
   best_candidates [0, 2, 1] = [2] \<and>
   satisfies (constraints greedy_problem) [True, False, False] half 0 = (Some (0, Some 2), 1)"
proof -
  have 1: "scores (constraints greedy_problem) [True, False, False] = (0, [0, 2, 1])"
    unfolding greedy_constraints by code_simp
  have 2: "best_candidates [0, 2, 1] = [2]"
    by code_simp
  have 3: "satisfies (constraints greedy_problem) [True, False, False] half 0 = (Some (0, Some 2), 1)"
    unfolding greedy_constraints half_def by code_simp
  from reachable_greedy 1 2 3 show ?thesis by blast
qed

text \<open>
  C10. Empty candidate set: there is a reachable problem (a satisfiable one) and an
  assignment that violates one of its clauses under which every atom has a negative net
  score. \<^verbatim>\<open>satisfies()\<close> then has no candidate and returns the suggestion \<^verbatim>\<open>undefined\<close>,
  whatever \<^verbatim>\<open>Math.random()\<close> gives, and the greedy flip of the search loop changes the
  truth value of no atom.
\<close>

theorem empty_candidates_undefined_suggestion:
  "reachable cycle_problem \<and>
   length (constraints cycle_problem) = 4 \<and>
   scores (constraints cycle_problem) [True, False, False, False] = (3, [0, - 1, - 1, - 1]) \<and>
   best_candidates [0, - 1, - 1, - 1] = [] \<and>
   satisfies (constraints cycle_problem) [True, False, False, False] rnd k = (Some (3, None), k + 1) \<and>
   flip_suggestion [True, False, False, False] None = [True, False, False, False] \<and>
   assignment (initial_state quarter 0 (complete cycle_problem)) = [True, False, False, False] \<and>
   result (initial_state quarter 0 (complete cycle_problem)) = Some (3, None) \<and>
   assignment (iterate (constraints (complete cycle_problem)) quarter 3 (3, None)
                 (initial_state quarter 0 (complete cycle_problem))) = [True, False, False, False]"
proof -
  have 1: "length (constraints cycle_problem) = 4" by (simp add: cycle_fields)
  have 2: "best_candidates [0, - 1, - 1, - 1] = []" by code_simp
  have 3: "satisfies (constraints cycle_problem) [True, False, False, False] rnd k = (Some (3, None), k + 1)"
    for rnd k
    by (simp add: satisfies_def cycle_scores 1 2 index_opt_def)
  have 4: "flip_suggestion [True, False, False, False] None = [True, False, False, False]"
    by (simp add: flip_suggestion_def)
  have c: "constraints (complete cycle_problem) = constraints cycle_problem"
    "fromInternal (complete cycle_problem) = ['''', ''a'', ''b'', ''c'']"
    by (simp_all add: complete_def cycle_fields)
  have a: "initial_assignment quarter 0 (Suc (Suc (Suc (Suc 0)))) = [True, False, False, False]"
    by code_simp
  have 5: "assignment (initial_state quarter 0 (complete cycle_problem)) = [True, False, False, False]"
    by (simp add: initial_state_def Let_def cycle_fields a)
  have 6: "result (initial_state quarter 0 (complete cycle_problem)) = Some (3, None)"
    by (simp add: initial_state_def Let_def cycle_fields(2) c(1) a 3)
  have n: "noise (initial_state quarter 0 (complete cycle_problem)) = 0"
    by (simp add: initial_state_def Let_def)
  have 7: "assignment (iterate (constraints (complete cycle_problem)) quarter 3 (3, None)
                 (initial_state quarter 0 (complete cycle_problem))) = [True, False, False, False]"
    by (simp add: iterate_def Let_def n 5 4) (simp add: quarter_def)
  from reachable_cycle 1 cycle_scores 2 3 4 5 6 7 show ?thesis by blast
qed

text \<open>
  C6. Non-integer \<^verbatim>\<open>atLeast\<close>: the claim is that \<^verbatim>\<open>atLeast(min, P)\<close> raises an
  infeasibility error for every non-integer \<open>min\<close> with \<open>0 < min \<le> |P|\<close>. The source
  has no integrality test in \<^verbatim>\<open>atLeast\<close>, and \<^verbatim>\<open>quantify\<close> rounds its bounds with
  \<^verbatim>\<open>Math.ceil\<close> and \<^verbatim>\<open>Math.floor\<close>: \<^verbatim>\<open>atLeast(1.5, ['a', 'b', 'c'])\<close> returns normally and
  adds the clause \<open>(2, 3, [1, 2, 3])\<close>.
\<close>

theorem atLeast_fraction_counterexample:
  "of_int \<lfloor>3 / 2 :: rat\<rfloor> \<noteq> (3 / 2 :: rat) \<and> (0 :: rat) < 3 / 2 \<and>
   (3 / 2 :: rat) \<le> of_nat (length [''a'', ''b'', ''c'']) \<and>
   snd (atLeast_c (3 / 2) [''a'', ''b'', ''c''] abc_problem) = None \<and>
   constraints (fst (atLeast_c (3 / 2) [''a'', ''b'', ''c''] abc_problem)) =
     [\<lparr>lo = 2, hi = 3, clause = [Num 1, Num 2, Num 3]\<rparr>]"
  unfolding atLeast_c_def quantify_def abc_lookups
  by (simp add: abc_fields)

text \<open>
  C6, amended. For every proposition list \<open>P\<close> and every non-integer \<open>min\<close> with
  \<open>0 < min \<le> |P|\<close>, the call \<^verbatim>\<open>atLeast(min, P)\<close> raises no infeasibility error: if the
  lookup of a proposition of \<open>P\<close> throws, the call throws that error and leaves the problem
  as it was; otherwise it returns normally, having truncated the store to the checkpoint
  and added the one clause \<open>(\<lceil>min\<rceil>, |P|, L)\<close>, where \<open>L\<close> lists what the lookups returned
  (the signed ids, and \<^verbatim>\<open>NaN\<close> for a proposition whose argument was found on the prototype
  chain).
\<close>

theorem atLeast_fraction_accepted:
  assumes "of_int \<lfloor>mn\<rfloor> \<noteq> mn" and "0 < mn" and "mn \<le> of_nat (length ps)"
  shows "atLeast_c mn ps p =
           (case lookups p ps of
              Inl e \<Rightarrow> (p, Some e)
            | Inr ls \<Rightarrow>
                (push [\<lparr> lo = \<lceil>mn\<rceil>, hi = int (length ps), clause = ls \<rparr>] (reset p), None))"
proof -
  have c: "\<lceil>mn\<rceil> \<le> int (length ps)" using assms(3) by (simp add: ceiling_le_iff)
  have z: "0 \<le> \<lceil>mn\<rceil>" using assms(2) by (simp add: less_imp_le)
  have lo: "max 0 \<lceil>mn\<rceil> = \<lceil>mn\<rceil>" using z by simp
  show ?thesis
    using assms(2,3) c lo
    by (simp add: atLeast_c_def quantify_def not_le split: sum.splits)
qed

theorem atLeast_fraction_accepted_witness:
  "of_int \<lfloor>3 / 2 :: rat\<rfloor> \<noteq> (3 / 2 :: rat) \<and> (0 :: rat) < 3 / 2 \<and>
   (3 / 2 :: rat) \<le> of_nat (length [''a'', ''b'', ''c'']) \<and>
   atLeast_c (3 / 2) [''a'', ''b'', ''c''] abc_problem =
     (push [\<lparr> lo = 2, hi = 3, clause = [Num 1, Num 2, Num 3] \<rparr>] (reset abc_problem), None) \<and>
   (3 / 2 :: rat) \<le> of_nat (length [''a'', ''f constructor'']) \<and>
   atLeast_c (3 / 2) [''a'', ''f constructor''] f_problem =
     (push [\<lparr> lo = 2, hi = 2, clause = [Num 1, NaN] \<rparr>] (reset f_problem), None) \<and>
   atLeast_c (3 / 2) [''a'', ''f y''] f_problem = (f_problem, Some (InvalidArgument 1))"
proof -
  have 1: "of_int \<lfloor>3 / 2 :: rat\<rfloor> \<noteq> (3 / 2 :: rat)" by simp
  have 2: "(0 :: rat) < 3 / 2" by simp
  have 3: "(3 / 2 :: rat) \<le> of_nat (length [''a'', ''b'', ''c''])" by simp
  have 4: "(3 / 2 :: rat) \<le> of_nat (length [''a'', ''f constructor''])" by simp
  have 5: "(3 / 2 :: rat) \<le> of_nat (length [''a'', ''f y''])" by simp
  from atLeast_fraction_accepted[OF 1 2 3, of abc_problem, unfolded abc_lookups]
    atLeast_fraction_accepted[OF 1 2 4, of f_problem, unfolded f_lookups_list]
    atLeast_fraction_accepted[OF 1 2 5, of f_problem, unfolded f_lookups_list]
    1 2 3 4
  show ?thesis by simp
qed


text \<open>
  C7. Stale Solution lookup: the claim is that \<^verbatim>\<open>s.lookup[attr]\<close> throws for every declared
  attribute whose id was minted after the solution \<open>s\<close> was produced. On the problem below
  the predicate \<open>c\<close> has empty domains, so there is no atom, and the proposition
  \<^verbatim>\<open>c constructor length\<close> does not throw: the reads go through \<^verbatim>\<open>Object.prototype\<close> to
  the \<^verbatim>\<open>length\<close> of the function \<^verbatim>\<open>Object\<close>, and the lookup returns \<open>1\<close>. The store holds
  the clause \<open>(1, 1, [1])\<close> over an assignment of one entry. The first random flip of the
  search loop is at \<^verbatim>\<open>guess = 1\<close> and makes the assignment grow to two entries, with which
  \<^verbatim>\<open>solve()\<close> returns. The attribute \<open>z\<close> declared afterwards gets the id 1, and
  \<^verbatim>\<open>s.lookup['z']\<close> returns \<^verbatim>\<open>true\<close> where the claim has it throw. On a problem with at
  least one atom the claim holds (lemma \<open>stale_lookup_declared\<close>).
\<close>

theorem stale_lookup_returns_after_growth:
  "reachable c_problem \<and> random_ok tenth \<and>
   fromInternal c_problem = [''''] \<and>
   lookup c_problem ''c constructor length'' = Inr (Num 1) \<and>
   constraints (complete c_problem) = [\<lparr> lo = 1, hi = 1, clause = [Num 1] \<rparr>] \<and>
   solve tenth 0 c_problem = (complete c_problem, Inr \<lparr> satisfyingAssignment = [True, True] \<rparr>) \<and>
   lookupAttributeInMap ''z'' (toInternal (complete c_problem)) = Inl NoPredicateDeclared \<and>
   fromInternal (exec (Attribute ''z'' []) (complete c_problem)) = ['''', ''z''] \<and>
   lookupAttributeInMap ''z'' (toInternal (exec (Attribute ''z'' []) (complete c_problem))) =
     Inr (Number 1) \<and>
   Solution_lookup \<lparr> satisfyingAssignment = [True, True] \<rparr>
     (toInternal (exec (Attribute ''z'' []) (complete c_problem))) ''z'' = Inr (Some True)"
proof -
  have 1: "lookup c_problem ''c constructor length'' = Inr (Num 1)"
    by code_simp
  have 2: "constraints (complete c_problem) = [\<lparr> lo = 1, hi = 1, clause = [Num 1] \<rparr>]"
    by (simp add: complete_def c_fields)
  have 3: "lookupAttributeInMap ''z'' (toInternal (complete c_problem)) = Inl NoPredicateDeclared"
    unfolding complete_registry by code_simp
  have 4: "fromInternal (exec (Attribute ''z'' []) (complete c_problem)) = ['''', ''z'']"
    by code_simp
  have 5: "lookupAttributeInMap ''z'' (toInternal (exec (Attribute ''z'' []) (complete c_problem))) =
     Inr (Number 1)"
    by code_simp
  have 6: "Solution_lookup \<lparr> satisfyingAssignment = [True, True] \<rparr>
     (toInternal (exec (Attribute ''z'' []) (complete c_problem))) ''z'' = Inr (Some True)"
    by (simp add: Solution_lookup_def 5)
  from reachable_c random_ok_tenth c_fields(2) 1 2 c_solve 3 4 5 6
  show ?thesis by simp
qed


end
